theory Spec2Isabelle
  imports Main "HOL-Library.Word" "HOL-Library.Multiset"
begin

section \<open>The History Ledger (app/aid/history/history.go)\<close>

subsection \<open>Data\<close>

text \<open>
  Go's \<^verbatim>\<open>map[string]bool\<close> is a partial map from keys to booleans, and the Failure
  Index \<^verbatim>\<open>map[string]map[string]bool\<close> a partial map to such maps.  The structs
  \<^verbatim>\<open>Success\<close> and \<^verbatim>\<open>Failure\<close> are embedded by pointer in \<^verbatim>\<open>History\<close>; only the
  fields that history.go touches are known (\<^verbatim>\<open>new\<close>, \<^verbatim>\<open>old\<close>, \<^verbatim>\<open>inheritable\<close>,
  \<^verbatim>\<open>list\<close>, \<^verbatim>\<open>inheritable\<close>), and the record below holds them under the path by
  which the source reaches them (\<^verbatim>\<open>self.Success.old\<close> is \<open>Success_old\<close>).
\<close>

type_synonym fingerprints = "string \<rightharpoonup> bool"
type_synonym failure_index = "string \<rightharpoonup> fingerprints"

record History =
  Success_new :: fingerprints
  Success_old :: fingerprints
  Success_inheritable :: bool
  Failure_list :: failure_index
  Failure_inheritable :: bool
  provider :: string

text \<open>\<^verbatim>\<open>New()\<close>: empty maps; the flags and the provider have Go's zero values.\<close>

definition New :: History where
  "New = \<lparr>Success_new = Map.empty, Success_old = Map.empty, Success_inheritable = False,
          Failure_list = Map.empty, Failure_inheritable = False, provider = []\<rparr>"

text \<open>
  A run-time panic ends the call (nothing in history.go recovers).  The two that the
  read operations can raise are an index out of range and a failed type assertion.
\<close>

datatype panic = IndexOutOfRange | InterfaceConversion

text \<open>
  The values of type \<^verbatim>\<open>interface{}\<close> that the document-store branch inspects:
  a string, a slice, a \<^verbatim>\<open>bson.M\<close> (a map from strings), nil, or anything else.
\<close>

datatype dyn = DNil | DString string | DSlice "dyn list" | DM "(string \<times> dyn) list" | DOther

definition as_slice :: "dyn \<Rightarrow> panic + dyn list" where
  "as_slice v = (case v of DSlice vs \<Rightarrow> Inr vs | _ \<Rightarrow> Inl InterfaceConversion)"

definition as_string :: "dyn \<Rightarrow> panic + string" where
  "as_string v = (case v of DString s \<Rightarrow> Inr s | _ \<Rightarrow> Inl InterfaceConversion)"

definition index_M :: "(string \<times> dyn) list \<Rightarrow> string \<Rightarrow> dyn" where
  "index_M m k = (case map_of m k of None \<Rightarrow> DNil | Some v \<Rightarrow> v)"

text \<open>\<^verbatim>\<open>v.(bson.M)["_id"].(string)\<close>\<close>

definition doc_id :: "dyn \<Rightarrow> panic + string" where
  "doc_id v = (case v of DM m \<Rightarrow> as_string (index_M m ''_id'') | _ \<Rightarrow> Inl InterfaceConversion)"

subsection \<open>What an operation does besides changing the ledger\<close>

text \<open>
  Every operation returns, with its outcome, the sequence of its lock operations, of its
  accesses to the ledger's fields and of its calls to a storage backend, in program
  order.  Of the logging only the reads of the ledger that compute the logged counts are
  kept.
\<close>

datatype field =
  F_provider | F_Success_new | F_Success_old | F_Success_inheritable
  | F_Failure_list | F_Failure_inheritable

datatype backend_call =
  Mgo_find string string
  | Mgo_Error
  | Mgo_Call_find string string
  | Mysql_DB
  | Mysql_SelectAll string
  | Os_Open string
  | Ioutil_ReadAll
  | Flush_mgo string
  | Flush_mysql string
  | Flush_file string

datatype event = Lock | Unlock | Rd field | Wr field | Backend backend_call

subsection \<open>The collaborators outside history.go\<close>

text \<open>
  The package variables derived from the configuration, and the results of the calls
  into the document store, the relational store, the file system, the JSON decoder and
  the request deserialiser, are parameters.
  \<^item> \<open>mgo_Mgo_find db c\<close>: the error of \<^verbatim>\<open>mgo.Mgo(&docs, "find", ...)\<close>, or \<^verbatim>\<open>docs\<close>
    as it filled it.
  \<^item> \<open>mgo_Error\<close>: \<^verbatim>\<open>mgo.Error()\<close>, \<open>None\<close> for nil.
  \<^item> \<open>mgo_Call_find db c\<close>: \<^verbatim>\<open>docs\<close> after \<^verbatim>\<open>mgo.Call\<close> (whose error is dropped).
  \<^item> \<open>mysql_DB\<close>: the error of \<^verbatim>\<open>mysql.DB()\<close>, \<open>None\<close> for nil.
  \<^item> \<open>mysql_SelectAll t\<close>: the error of \<^verbatim>\<open>SelectAll\<close>, or for each row the string
    that \<^verbatim>\<open>rows.Scan\<close> left in \<^verbatim>\<open>id\<close> (success table) or in \<^verbatim>\<open>failure\<close> (failure
    table); the error of \<^verbatim>\<open>Scan\<close> is dropped by the source.
  \<^item> \<open>os_Open p\<close>: the error of \<^verbatim>\<open>os.Open\<close>, or the bytes that \<^verbatim>\<open>ioutil.ReadAll\<close>
    then returned (its error is dropped by the source).
  \<^item> \<open>json_Unmarshal_set b m\<close> and \<open>json_Unmarshal_index b m\<close>: the map after
    \<^verbatim>\<open>json.Unmarshal(b, &m)\<close> (its error is dropped by the source).
  \<^item> \<open>request_UnSerialize s\<close>: the error of \<^verbatim>\<open>request.UnSerialize\<close>, or the spider
    name of the request it returned.
\<close>

record env =
  MGO_DB :: string
  SUCCESS_FILE :: string
  FAILURE_FILE :: string
  SUCCESS_FILE_FULL :: string
  FAILURE_FILE_FULL :: string
  mgo_Mgo_find :: "string \<Rightarrow> string \<Rightarrow> string + (string \<times> dyn) list"
  mgo_Error :: "string option"
  mgo_Call_find :: "string \<Rightarrow> string \<Rightarrow> dyn list"
  mysql_DB :: "string option"
  mysql_SelectAll :: "string \<Rightarrow> string + string list"
  os_Open :: "string \<Rightarrow> string + string"
  json_Unmarshal_set :: "string \<Rightarrow> fingerprints \<Rightarrow> fingerprints"
  json_Unmarshal_index :: "string \<Rightarrow> failure_index \<Rightarrow> failure_index"
  request_UnSerialize :: "string \<Rightarrow> string + string"

subsection \<open>ReadSuccess\<close>

text \<open>The loop of the \<^verbatim>\<open>"mgo"\<close> case: a document that is not a \<^verbatim>\<open>bson.M\<close> with a
  string \<^verbatim>\<open>_id\<close> panics, after the documents before it were inserted.\<close>

fun mgo_load_success :: "dyn list \<Rightarrow> fingerprints \<Rightarrow> event list \<times> (panic + fingerprints)" where
  "mgo_load_success [] old = ([], Inr old)"
| "mgo_load_success (v # vs) old =
     (case doc_id v of
        Inl p \<Rightarrow> ([], Inl p)
      | Inr k \<Rightarrow>
          (case mgo_load_success vs (old(k \<mapsto> True)) of
             (tr, r) \<Rightarrow> (Wr F_Success_old # tr, r)))"

text \<open>The loop of the \<^verbatim>\<open>"mysql"\<close> case.\<close>

fun mysql_load_success :: "string list \<Rightarrow> fingerprints \<Rightarrow> event list \<times> fingerprints" where
  "mysql_load_success [] old = ([], old)"
| "mysql_load_success (k # ks) old =
     (case mysql_load_success ks (old(k \<mapsto> True)) of
        (tr, r) \<Rightarrow> (Wr F_Success_old # tr, r))"

definition ReadSuccess_mgo :: "env \<Rightarrow> History \<Rightarrow> event list \<times> (panic + History)" where
  "ReadSuccess_mgo E self =
     (case mgo_Mgo_find E (MGO_DB E) (SUCCESS_FILE E) of
        Inl err \<Rightarrow> ([Backend (Mgo_find (MGO_DB E) (SUCCESS_FILE E))], Inr self)
      | Inr docs \<Rightarrow>
          (case as_slice (index_M docs ''Docs'') of
             Inl p \<Rightarrow> ([Backend (Mgo_find (MGO_DB E) (SUCCESS_FILE E))], Inl p)
           | Inr vs \<Rightarrow>
               (case mgo_load_success vs (Success_old self) of
                  (tr, Inl p) \<Rightarrow> (Backend (Mgo_find (MGO_DB E) (SUCCESS_FILE E)) # tr, Inl p)
                | (tr, Inr old') \<Rightarrow>
                    (Backend (Mgo_find (MGO_DB E) (SUCCESS_FILE E)) # tr @ [Rd F_Success_old],
                     Inr (self\<lparr>Success_old := old'\<rparr>)))))"

definition ReadSuccess_mysql :: "env \<Rightarrow> History \<Rightarrow> event list \<times> (panic + History)" where
  "ReadSuccess_mysql E self =
     (case mysql_DB E of
        Some err \<Rightarrow> ([Backend Mysql_DB], Inr self)
      | None \<Rightarrow>
          (case mysql_SelectAll E (''`'' @ SUCCESS_FILE E @ ''`'') of
             Inl err \<Rightarrow>
               ([Backend Mysql_DB, Backend (Mysql_SelectAll (''`'' @ SUCCESS_FILE E @ ''`''))],
                Inr self)
           | Inr rows \<Rightarrow>
               (case mysql_load_success rows (Success_old self) of
                  (tr, old') \<Rightarrow>
                    ([Backend Mysql_DB, Backend (Mysql_SelectAll (''`'' @ SUCCESS_FILE E @ ''`''))]
                       @ tr @ [Rd F_Success_old],
                     Inr (self\<lparr>Success_old := old'\<rparr>)))))"

text \<open>
  The \<^verbatim>\<open>default\<close> case.  \<^verbatim>\<open>b[0] = '{'\<close> is an index expression on the slice that
  \<^verbatim>\<open>ReadAll\<close> returned: on a slice of length 0 it panics.
\<close>

definition ReadSuccess_file :: "env \<Rightarrow> History \<Rightarrow> event list \<times> (panic + History)" where
  "ReadSuccess_file E self =
     (case os_Open E (SUCCESS_FILE_FULL E) of
        Inl err \<Rightarrow> ([Backend (Os_Open (SUCCESS_FILE_FULL E))], Inr self)
      | Inr b \<Rightarrow>
          (case b of
             [] \<Rightarrow> ([Backend (Os_Open (SUCCESS_FILE_FULL E)), Backend Ioutil_ReadAll],
                    Inl IndexOutOfRange)
           | b0 # bs \<Rightarrow>
               ([Backend (Os_Open (SUCCESS_FILE_FULL E)), Backend Ioutil_ReadAll,
                 Wr F_Success_old, Rd F_Success_old],
                Inr (self\<lparr>Success_old :=
                       json_Unmarshal_set E ((CHR ''{'' # bs) @ ''}'') (Success_old self)\<rparr>))))"

definition ReadSuccess :: "env \<Rightarrow> string \<Rightarrow> bool \<Rightarrow> History \<Rightarrow> event list \<times> (panic + History)" where
  "ReadSuccess E provider' inherit self0 =
     (let self = self0\<lparr>provider := provider'\<rparr>;
          tr = [Lock, Wr F_provider, Unlock]
      in if \<not> inherit then
           (tr @ [Wr F_Success_old, Wr F_Success_new, Wr F_Success_inheritable],
            Inr (self\<lparr>Success_old := Map.empty, Success_new := Map.empty,
                       Success_inheritable := False\<rparr>))
         else if Success_inheritable self then
           (tr @ [Rd F_Success_inheritable], Inr self)
         else
           (let self = self\<lparr>Success_old := Map.empty, Success_new := Map.empty,
                             Success_inheritable := True\<rparr>;
                tr = tr @ [Rd F_Success_inheritable, Wr F_Success_old, Wr F_Success_new,
                           Wr F_Success_inheritable]
            in case (if provider' = ''mgo'' then ReadSuccess_mgo E self
                     else if provider' = ''mysql'' then ReadSuccess_mysql E self
                     else ReadSuccess_file E self) of
                 (tr', r) \<Rightarrow> (tr @ tr', r)))"

subsection \<open>ReadFailure\<close>

text \<open>
  \<^verbatim>\<open>if _, ok := self.Failure.list[spName]; !ok { ... = make(map[string]bool) }\<close>
  followed by \<^verbatim>\<open>self.Failure.list[spName][failure] = true\<close>.
\<close>

definition index_insert :: "string \<Rightarrow> string \<Rightarrow> failure_index \<Rightarrow> failure_index" where
  "index_insert spName failure l =
     (case l spName of
        None \<Rightarrow> l(spName \<mapsto> [failure \<mapsto> True])
      | Some sub \<Rightarrow> l(spName \<mapsto> sub(failure \<mapsto> True)))"

text \<open>The loop of the \<^verbatim>\<open>"mgo"\<close> case: a record that does not deserialise is skipped
  (\<^verbatim>\<open>continue\<close>), a document of another shape panics.\<close>

fun mgo_load_failure ::
  "(string \<Rightarrow> string + string) \<Rightarrow> dyn list \<Rightarrow> failure_index
     \<Rightarrow> event list \<times> (panic + failure_index)" where
  "mgo_load_failure unser [] l = ([], Inr l)"
| "mgo_load_failure unser (v # vs) l =
     (case doc_id v of
        Inl p \<Rightarrow> ([], Inl p)
      | Inr failure \<Rightarrow>
          (case unser failure of
             Inl err \<Rightarrow> mgo_load_failure unser vs l
           | Inr spName \<Rightarrow>
               (case mgo_load_failure unser vs (index_insert spName failure l) of
                  (tr, r) \<Rightarrow> (Rd F_Failure_list # Wr F_Failure_list # tr, r))))"

text \<open>The loop of the \<^verbatim>\<open>"mysql"\<close> case.\<close>

fun mysql_load_failure ::
  "(string \<Rightarrow> string + string) \<Rightarrow> string list \<Rightarrow> failure_index
     \<Rightarrow> event list \<times> failure_index" where
  "mysql_load_failure unser [] l = ([], l)"
| "mysql_load_failure unser (failure # fs) l =
     (case unser failure of
        Inl err \<Rightarrow> mysql_load_failure unser fs l
      | Inr spName \<Rightarrow>
          (case mysql_load_failure unser fs (index_insert spName failure l) of
             (tr, r) \<Rightarrow> (Rd F_Failure_list # Wr F_Failure_list # tr, r)))"

text \<open>The \<^verbatim>\<open>"mgo"\<close> case: \<^verbatim>\<open>mgo.Error()\<close> is called for the test, and once more
  for the log line when it is not nil.\<close>

definition ReadFailure_mgo :: "env \<Rightarrow> History \<Rightarrow> event list \<times> (panic + History)" where
  "ReadFailure_mgo E self =
     (case mgo_Error E of
        Some err \<Rightarrow> ([Backend Mgo_Error, Backend Mgo_Error], Inr self)
      | None \<Rightarrow>
          (case mgo_load_failure (request_UnSerialize E)
                  (mgo_Call_find E (MGO_DB E) (FAILURE_FILE E)) (Failure_list self) of
             (tr, Inl p) \<Rightarrow>
               ([Backend Mgo_Error, Backend (Mgo_Call_find (MGO_DB E) (FAILURE_FILE E))] @ tr,
                Inl p)
           | (tr, Inr l') \<Rightarrow>
               ([Backend Mgo_Error, Backend (Mgo_Call_find (MGO_DB E) (FAILURE_FILE E))] @ tr,
                Inr (self\<lparr>Failure_list := l'\<rparr>))))"

definition ReadFailure_mysql :: "env \<Rightarrow> History \<Rightarrow> event list \<times> (panic + History)" where
  "ReadFailure_mysql E self =
     (case mysql_DB E of
        Some err \<Rightarrow> ([Backend Mysql_DB], Inr self)
      | None \<Rightarrow>
          (case mysql_SelectAll E (''`'' @ FAILURE_FILE E @ ''`'') of
             Inl err \<Rightarrow>
               ([Backend Mysql_DB, Backend (Mysql_SelectAll (''`'' @ FAILURE_FILE E @ ''`''))],
                Inr self)
           | Inr rows \<Rightarrow>
               (case mysql_load_failure (request_UnSerialize E) rows (Failure_list self) of
                  (tr, l') \<Rightarrow>
                    ([Backend Mysql_DB, Backend (Mysql_SelectAll (''`'' @ FAILURE_FILE E @ ''`''))]
                       @ tr,
                     Inr (self\<lparr>Failure_list := l'\<rparr>)))))"

text \<open>The \<^verbatim>\<open>default\<close> case; the closing loop over \<^verbatim>\<open>self.Failure.list\<close> only counts
  the records for the log.\<close>

definition ReadFailure_file :: "env \<Rightarrow> History \<Rightarrow> event list \<times> (panic + History)" where
  "ReadFailure_file E self =
     (case os_Open E (FAILURE_FILE_FULL E) of
        Inl err \<Rightarrow> ([Backend (Os_Open (FAILURE_FILE_FULL E))], Inr self)
      | Inr b \<Rightarrow>
          (case b of
             [] \<Rightarrow> ([Backend (Os_Open (FAILURE_FILE_FULL E)), Backend Ioutil_ReadAll],
                    Inl IndexOutOfRange)
           | b0 # bs \<Rightarrow>
               ([Backend (Os_Open (FAILURE_FILE_FULL E)), Backend Ioutil_ReadAll,
                 Wr F_Failure_list, Rd F_Failure_list],
                Inr (self\<lparr>Failure_list :=
                       json_Unmarshal_index E ((CHR ''{'' # bs) @ ''}'') (Failure_list self)\<rparr>))))"

definition ReadFailure :: "env \<Rightarrow> string \<Rightarrow> bool \<Rightarrow> History \<Rightarrow> event list \<times> (panic + History)" where
  "ReadFailure E provider' inherit self0 =
     (let self = self0\<lparr>provider := provider'\<rparr>;
          tr = [Lock, Wr F_provider, Unlock]
      in if \<not> inherit then
           (tr @ [Wr F_Failure_list, Wr F_Failure_inheritable],
            Inr (self\<lparr>Failure_list := Map.empty, Failure_inheritable := False\<rparr>))
         else if Failure_inheritable self then
           (tr @ [Rd F_Failure_inheritable], Inr self)
         else
           (let self = self\<lparr>Failure_list := Map.empty, Failure_inheritable := True\<rparr>;
                tr = tr @ [Rd F_Failure_inheritable, Wr F_Failure_list, Wr F_Failure_inheritable]
            in case (if provider' = ''mgo'' then ReadFailure_mgo E self
                     else if provider' = ''mysql'' then ReadFailure_mysql E self
                     else ReadFailure_file E self) of
                 (tr', r) \<Rightarrow> (tr @ tr', r)))"

subsection \<open>Empty, FlushSuccess, FlushFailure\<close>

definition Empty :: "History \<Rightarrow> event list \<times> History" where
  "Empty self =
     ([Lock, Wr F_Success_new, Wr F_Success_old, Wr F_Failure_list, Unlock],
      self\<lparr>Success_new := Map.empty, Success_old := Map.empty, Failure_list := Map.empty\<rparr>)"

text \<open>
  Modelled from the spec: \<^verbatim>\<open>Success.flush\<close> and \<^verbatim>\<open>Failure.flush\<close>, which
  \<^verbatim>\<open>FlushSuccess\<close> and \<^verbatim>\<open>FlushFailure\<close> call, are not in history.go.  The spec has
  them persist the \<open>new\<close> success fingerprints, respectively the entries of the Failure
  Index, to the backend that the provider selects (document store, relational store, or
  the flat file for any other provider), return a count and an error that the caller only
  logs, and leave the in-memory cache as it is.  The model records the read of the cache
  and the write to the selected backend.
\<close>

definition Success_flush :: "env \<Rightarrow> string \<Rightarrow> History \<Rightarrow> event list" where
  "Success_flush E provider' self =
     [Rd F_Success_new,
      Backend (if provider' = ''mgo'' then Flush_mgo (SUCCESS_FILE E)
               else if provider' = ''mysql'' then Flush_mysql (SUCCESS_FILE E)
               else Flush_file (SUCCESS_FILE_FULL E))]"

definition Failure_flush :: "env \<Rightarrow> string \<Rightarrow> History \<Rightarrow> event list" where
  "Failure_flush E provider' self =
     [Rd F_Failure_list,
      Backend (if provider' = ''mgo'' then Flush_mgo (FAILURE_FILE E)
               else if provider' = ''mysql'' then Flush_mysql (FAILURE_FILE E)
               else Flush_file (FAILURE_FILE_FULL E))]"

definition FlushSuccess :: "env \<Rightarrow> string \<Rightarrow> History \<Rightarrow> event list \<times> History" where
  "FlushSuccess E provider' self0 =
     (let self = self0\<lparr>provider := provider'\<rparr>
      in ([Lock, Wr F_provider, Unlock] @ Success_flush E provider' self, self))"

definition FlushFailure :: "env \<Rightarrow> string \<Rightarrow> History \<Rightarrow> event list \<times> History" where
  "FlushFailure E provider' self0 =
     (let self = self0\<lparr>provider := provider'\<rparr>
      in ([Lock, Wr F_provider, Unlock] @ Failure_flush E provider' self, self))"

subsection \<open>UpsertSuccess\<close>

text \<open>The interface \<^verbatim>\<open>Record\<close>: \<^verbatim>\<open>GetUrl()\<close> and \<^verbatim>\<open>GetMethod()\<close>.\<close>

record Record =
  GetUrl :: string
  GetMethod :: string

text \<open>
  Modelled from the spec: \<^verbatim>\<open>UpsertSuccess\<close> is declared in the interface
  \<^verbatim>\<open>Historier\<close> and its body is not in history.go.  The spec: it computes the record's
  fingerprint; if the fingerprint is absent from both \<open>old\<close> and \<open>new\<close>, it inserts it
  into \<open>new\<close> and returns true; if it is already present, it returns false and changes
  nothing.  The fingerprint function is a parameter.
\<close>

definition UpsertSuccess :: "(Record \<Rightarrow> string) \<Rightarrow> Record \<Rightarrow> History \<Rightarrow> bool \<times> History" where
  "UpsertSuccess fingerprint r self =
     (if Success_old self (fingerprint r) = None \<and> Success_new self (fingerprint r) = None
      then (True, self\<lparr>Success_new := (Success_new self)(fingerprint r \<mapsto> True)\<rparr>)
      else (False, self))"

subsection \<open>Reading a trace\<close>

text \<open>The calls to a storage backend in a trace, in order.\<close>

fun backend_calls :: "event list \<Rightarrow> backend_call list" where
  "backend_calls [] = []"
| "backend_calls (Backend c # es) = c # backend_calls es"
| "backend_calls (e # es) = backend_calls es"

text \<open>The fields that make up the Success Set and the Failure Index.\<close>

fun is_set_field :: "field \<Rightarrow> bool" where
  "is_set_field F_provider = False"
| "is_set_field f = True"

text \<open>
  \<open>locked held tr\<close>: walking the trace with the lock held or not at its start, every
  access to a field of the Success Set or the Failure Index happens while the lock is
  held.
\<close>

fun locked :: "bool \<Rightarrow> event list \<Rightarrow> bool" where
  "locked held [] = True"
| "locked held (Lock # es) = locked True es"
| "locked held (Unlock # es) = locked False es"
| "locked held (Rd f # es) = (if is_set_field f \<and> \<not> held then False else locked held es)"
| "locked held (Wr f # es) = (if is_set_field f \<and> \<not> held then False else locked held es)"
| "locked held (Backend c # es) = locked held es"

text \<open>The outcome with the recorded provider replaced.\<close>

definition with_provider ::
  "string \<Rightarrow> event list \<times> (panic + History) \<Rightarrow> event list \<times> (panic + History)" where
  "with_provider p res = (fst res, map_sum id (\<lambda>h. h\<lparr>provider := p\<rparr>) (snd res))"

subsection \<open>Sample collaborators and ledgers\<close>

text \<open>
  A backend in which neither store is reachable, the success file holds one record and
  the failure file does not exist.  The file's content is a comma and the JSON member
  with the key \<open>k\<close> and the value \<open>true\<close> (\<open>CHR 0x22\<close> is the double quote), so that
  the read hands the JSON object with that one member to the decoder; the decoder stands
  for \<^verbatim>\<open>json.Unmarshal\<close> on that one text and leaves the map as it is on any other.
  \<open>env_empty_files\<close> is the same with both history files present and empty.
  \<open>ledger_loaded\<close> is the ledger after a first inheriting read of the success file.
\<close>

definition success_file_content :: string where
  "success_file_content = '','' @ [CHR 0x22] @ ''k'' @ [CHR 0x22] @ '':true''"

definition success_file_json :: string where
  "success_file_json = ''{'' @ [CHR 0x22] @ ''k'' @ [CHR 0x22] @ '':true}''"

definition env_example :: env where
  "env_example =
     \<lparr>MGO_DB = ''pholcus'', SUCCESS_FILE = ''history_y'', FAILURE_FILE = ''history_n'',
      SUCCESS_FILE_FULL = ''cache/history_y'', FAILURE_FILE_FULL = ''cache/history_n'',
      mgo_Mgo_find = (\<lambda>db c. Inl ''no session''),
      mgo_Error = Some ''no session'',
      mgo_Call_find = (\<lambda>db c. []),
      mysql_DB = Some ''no connection'',
      mysql_SelectAll = (\<lambda>t. Inl ''no connection''),
      os_Open = (\<lambda>p. if p = ''cache/history_y'' then Inr success_file_content
                      else Inl ''no such file''),
      json_Unmarshal_set = (\<lambda>b m. if b = success_file_json then m(''k'' \<mapsto> True) else m),
      json_Unmarshal_index = (\<lambda>b m. m),
      request_UnSerialize = (\<lambda>s. Inl ''bad request'')\<rparr>"

definition ledger_loaded :: History where
  "ledger_loaded = New\<lparr>provider := ''file'', Success_inheritable := True,
                         Success_old := [''k'' \<mapsto> True]\<rparr>"

definition env_empty_files :: env where
  "env_empty_files = env_example\<lparr>os_Open := (\<lambda>p. Inr [])\<rparr>"

definition fingerprint_example :: "Record \<Rightarrow> string" where
  "fingerprint_example r = GetUrl r @ GetMethod r"

definition record_example :: Record where
  "record_example = \<lparr>GetUrl = ''http://a/'', GetMethod = ''GET''\<rparr>"

section \<open>The Collector (app/pipeline/collector/collector.go)\<close>

subsection \<open>Data\<close>

text \<open>
  The Collector of one task, the goroutines that \<^verbatim>\<open>Manage\<close> starts and the channel it
  reports to are one state.  \<^verbatim>\<open>DataCell\<close> and \<^verbatim>\<open>FileCell\<close> are opaque (\<open>'d\<close>, \<open>'f\<close>).
  A buffered channel is the list of the values it holds, oldest first.  The arrays
  \<^verbatim>\<open>sum [3]uint64\<close> and \<^verbatim>\<open>outCount [4]uint\<close> are one field per element; \<^verbatim>\<open>outCount\<close>
  counts in \<open>nat\<close> (a Go \<^verbatim>\<open>uint\<close> is 32 or 64 bits wide and wraps; the model
  supposes that one task triggers fewer than \<open>2 ^ 32\<close> outputs, so that no counter
  wraps), \<^verbatim>\<open>sum\<close> in 64-bit words.  \<^verbatim>\<open>timing\<close> and \<^verbatim>\<open>outType\<close> play no part in \<^verbatim>\<open>Manage\<close> and are left out, and
  so is the elapsed time of a report.

  The goroutines interleave freely, one step at a time.  Nothing in collector.go
  synchronises the accesses to \<^verbatim>\<open>outCount\<close>, so the steps follow the accesses to
  the counters that several goroutines use: \<^verbatim>\<open>self.outCount[1]++\<close>, which every
  goroutine of \<^verbatim>\<open>goOutput\<close> executes, is a read of the counter and then a write of
  the value read plus one, and the operands of the condition of the second loop of
  \<^verbatim>\<open>Manage\<close> are evaluated one after the other, from left to right, each in a step
  of its own.  \<^verbatim>\<open>self.outCount[0]++\<close> is one step: only the goroutine of
  \<^verbatim>\<open>Manage\<close> writes that counter.  Every other Go statement, and the condition of
  the first loop, is one step.
\<close>

text \<open>
  Where the goroutine that runs \<^verbatim>\<open>Manage\<close> stands: before the statement named;
  \<open>M_Wait\<close>, \<open>M_Wait_file\<close> and \<open>M_Wait_chan\<close> are before the first, the second
  and the third operand of \<^verbatim>\<open>(outCount[0] > outCount[1]) || (outCount[2] > outCount[3])
  || len(FileChan) > 0\<close>.
\<close>

datatype manage_pc =
  M_CtrlW | M_SaveFile | M_Loop | M_Select | M_Final | M_Wait | M_Wait_file | M_Wait_chan
  | M_Report | M_Done | M_Panic

text \<open>
  A goroutine started by \<^verbatim>\<open>goOutput\<close>: before \<^verbatim>\<open>self.Output(dataIndex)\<close>, with the
  index and the items of the docker it was given; before \<^verbatim>\<open>self.outCount[1]++\<close>; or
  in the middle of it, with the value it has read and not yet written back.
\<close>

datatype 'd go_output = Running nat "'d list" | Counting | Storing nat

text \<open>
  A file that the file worker has received from the queue: before its output is counted
  as started, or while it is written.
\<close>

datatype 'f file_output = Received 'f | Saving 'f

record Report =
  SpiderName :: string
  Keyword :: string
  DataNum :: "64 word"
  FileNum :: "64 word"

record ('d, 'f) Collector =
  Spider_Name :: string
  Spider_Keyword :: string
  Dockers :: "'d list list"
  Curr :: nat
  DataChan :: "'d list"
  FileChan :: "'f list"
  ctrl :: "bool list"
  sum_0 :: "64 word"
  sum_1 :: "64 word"
  sum_2 :: "64 word"
  outCount_0 :: nat
  outCount_1 :: nat
  outCount_2 :: nat
  outCount_3 :: nat
  manage :: manage_pc
  outputs :: "'d go_output list"
  SaveFile_started :: bool
  file_outputs :: "'f file_output list"
  triggered :: "'d list list"
  written :: "'d list list"
  ReportChan :: "Report list"

text \<open>
  \<open>outputs\<close>: the goroutines started by \<^verbatim>\<open>goOutput\<close> that have not ended, oldest first;
  \<open>file_outputs\<close>: the files that the file worker holds; \<open>written\<close>: the
  batches that \<^verbatim>\<open>Output\<close> has written, in the order of completion; \<open>ReportChan\<close>:
  \<^verbatim>\<open>cache.ReportChan\<close>, as far as this task sends to it.  \<open>triggered\<close> is a log and not
  program state: the batch given to each \<^verbatim>\<open>goOutput\<close> call, in the order of the calls.
\<close>

text \<open>The configuration read by the Collector: \<^verbatim>\<open>cache.Task.DockerCap\<close>,
  \<^verbatim>\<open>config.DATA_CAP\<close>, and the number of dockers that \<^verbatim>\<open>NewDockerQueue\<close> makes.\<close>

record Task =
  DockerCap :: int
  DATA_CAP :: nat
  DockerQueueCap :: nat

subsection \<open>The docker queue and the output, which are not in collector.go\<close>

text \<open>
  Modelled from the spec: \<^verbatim>\<open>NewDockerQueue\<close> and \<^verbatim>\<open>Change\<close> (the type
  \<^verbatim>\<open>DockerQueue\<close> is embedded in the Collector and declared elsewhere).  The spec: a
  fixed small number of dockers and a current index; \<^verbatim>\<open>Change\<close> advances the current
  index to the next slot, wrapping.
\<close>

definition NewDockerQueue :: "Task \<Rightarrow> 'd list list \<times> nat" where
  "NewDockerQueue T = (replicate (DockerQueueCap T) [], 0)"

definition Change :: "('d, 'f) Collector \<Rightarrow> ('d, 'f) Collector" where
  "Change self = self\<lparr>Curr := (Curr self + 1) mod length (Dockers self)\<rparr>"

text \<open>
  Modelled from the spec: \<^verbatim>\<open>Output\<close>, which the goroutine of \<^verbatim>\<open>goOutput\<close> calls with
  the docker's index.  The spec: a docker is append-only while it fills, and once handed
  to output it is read-only and then discarded; after triggering an output the queue
  switches to a new current docker; the report carries the cumulative count of text
  items.  In the model the output is handed the docker's items when it is triggered, and
  the slot is left empty (\<open>hand_over\<close>); when \<^verbatim>\<open>Output\<close> runs, it writes the batch and
  adds its size to the running total with \<^verbatim>\<open>setDataSum\<close>, the only function of
  collector.go that changes \<^verbatim>\<open>sum[1]\<close>.
\<close>

definition docker_at :: "('d, 'f) Collector \<Rightarrow> nat \<Rightarrow> 'd list" where
  "docker_at self i = (if i < length (Dockers self) then Dockers self ! i else [])"

definition hand_over :: "nat \<Rightarrow> ('d, 'f) Collector \<Rightarrow> ('d, 'f) Collector" where
  "hand_over dataIndex self =
     self\<lparr>outputs := outputs self @ [Running dataIndex (docker_at self dataIndex)],
          triggered := triggered self @ [docker_at self dataIndex],
          Dockers := (Dockers self)[dataIndex := []]\<rparr>"

subsection \<open>The functions of collector.go\<close>

definition Init :: "Task \<Rightarrow> string \<Rightarrow> string \<Rightarrow> ('d, 'f) Collector" where
  "Init T name keyword =
     \<lparr>Spider_Name = name, Spider_Keyword = keyword,
      Dockers = fst (NewDockerQueue T :: 'd list list \<times> nat),
      Curr = snd (NewDockerQueue T :: 'd list list \<times> nat),
      DataChan = [], FileChan = [], ctrl = [],
      sum_0 = 0, sum_1 = 0, sum_2 = 0,
      outCount_0 = 0, outCount_1 = 0, outCount_2 = 0, outCount_3 = 0,
      manage = M_CtrlW, outputs = [], SaveFile_started = False, file_outputs = [],
      triggered = [], written = [], ReportChan = []\<rparr>"

text \<open>A send on a full channel and a receive on an empty one block: the statement
  cannot take its step (\<open>None\<close>).\<close>

definition CollectData :: "Task \<Rightarrow> 'd \<Rightarrow> ('d, 'f) Collector \<Rightarrow> ('d, 'f) Collector option" where
  "CollectData T dataCell self =
     (if length (DataChan self) < DATA_CAP T
      then Some (self\<lparr>DataChan := DataChan self @ [dataCell]\<rparr>) else None)"

definition CollectFile :: "'f \<Rightarrow> ('d, 'f) Collector \<Rightarrow> ('d, 'f) Collector option" where
  "CollectFile fileCell self =
     (if length (FileChan self) < 512
      then Some (self\<lparr>FileChan := FileChan self @ [fileCell]\<rparr>) else None)"

definition CtrlW :: "('d, 'f) Collector \<Rightarrow> ('d, 'f) Collector option" where
  "CtrlW self =
     (if length (ctrl self) < 1 then Some (self\<lparr>ctrl := ctrl self @ [True]\<rparr>) else None)"

definition CtrlR :: "('d, 'f) Collector \<Rightarrow> ('d, 'f) Collector option" where
  "CtrlR self = (case ctrl self of [] \<Rightarrow> None | b # bs \<Rightarrow> Some (self\<lparr>ctrl := bs\<rparr>))"

definition CtrlLen :: "('d, 'f) Collector \<Rightarrow> nat" where
  "CtrlLen self = length (ctrl self)"

definition dataSum :: "('d, 'f) Collector \<Rightarrow> 64 word" where
  "dataSum self = sum_1 self"

definition setDataSum :: "64 word \<Rightarrow> ('d, 'f) Collector \<Rightarrow> ('d, 'f) Collector" where
  "setDataSum add self = self\<lparr>sum_0 := sum_1 self, sum_1 := sum_1 self + add\<rparr>"

definition fileSum :: "('d, 'f) Collector \<Rightarrow> 64 word" where
  "fileSum self = sum_2 self"

definition setFileSum :: "64 word \<Rightarrow> ('d, 'f) Collector \<Rightarrow> ('d, 'f) Collector" where
  "setFileSum add self = self\<lparr>sum_2 := sum_2 self + add\<rparr>"

text \<open>\<^verbatim>\<open>goOutput\<close>: the counter first, then the goroutine.\<close>

definition goOutput :: "nat \<Rightarrow> ('d, 'f) Collector \<Rightarrow> ('d, 'f) Collector" where
  "goOutput dataIndex self = hand_over dataIndex (self\<lparr>outCount_0 := outCount_0 self + 1\<rparr>)"

text \<open>\<^verbatim>\<open>dockerOne\<close>; indexing \<^verbatim>\<open>self.Dockers\<close> out of range panics.\<close>

definition dockerOne :: "Task \<Rightarrow> 'd \<Rightarrow> ('d, 'f) Collector \<Rightarrow> panic + ('d, 'f) Collector" where
  "dockerOne T data self =
     (if Curr self < length (Dockers self) then
        (let self = self\<lparr>Dockers := (Dockers self)[Curr self := Dockers self ! Curr self @ [data]]\<rparr>
         in if DockerCap T \<le> int (length (Dockers self ! Curr self))
            then Inr (Change (goOutput (Curr self) self))
            else Inr self)
      else Inl IndexOutOfRange)"

definition Report :: "('d, 'f) Collector \<Rightarrow> ('d, 'f) Collector" where
  "Report self =
     self\<lparr>ReportChan := ReportChan self @
            [\<lparr>SpiderName = Spider_Name self, Keyword = Spider_Keyword self,
              DataNum = dataSum self, FileNum = fileSum self\<rparr>]\<rparr>"

text \<open>
  \<^verbatim>\<open>Manage\<close>, one step at a time.  The \<^verbatim>\<open>select\<close> receives an item if the channel
  holds one and otherwise yields; a panic in \<^verbatim>\<open>dockerOne\<close> ends the goroutine.  In
  the second loop an operand that is true ends the evaluation of \<^verbatim>\<open>||\<close>: the body
  yields and the condition is evaluated again from its first operand; the loop is left
  when the third operand has been found false after the first and the second.
\<close>

definition Manage :: "Task \<Rightarrow> ('d, 'f) Collector \<Rightarrow> ('d, 'f) Collector option" where
  "Manage T self =
     (case manage self of
        M_CtrlW \<Rightarrow> map_option (\<lambda>s. s\<lparr>manage := M_SaveFile\<rparr>) (CtrlW self)
      | M_SaveFile \<Rightarrow> Some (self\<lparr>SaveFile_started := True, manage := M_Loop\<rparr>)
      | M_Loop \<Rightarrow>
          Some (if \<not> (CtrlLen self = 0 \<and> length (DataChan self) = 0)
                then self\<lparr>manage := M_Select\<rparr> else self\<lparr>manage := M_Final\<rparr>)
      | M_Select \<Rightarrow>
          (case DataChan self of
             data # rest \<Rightarrow>
               (case dockerOne T data (self\<lparr>DataChan := rest\<rparr>) of
                  Inl p \<Rightarrow> Some (self\<lparr>DataChan := rest, manage := M_Panic\<rparr>)
                | Inr self' \<Rightarrow> Some (self'\<lparr>manage := M_Loop\<rparr>))
           | [] \<Rightarrow> Some (self\<lparr>manage := M_Loop\<rparr>))
      | M_Final \<Rightarrow> Some ((goOutput (Curr self) self)\<lparr>manage := M_Wait\<rparr>)
      | M_Wait \<Rightarrow>
          Some (if outCount_0 self > outCount_1 self then self
                else self\<lparr>manage := M_Wait_file\<rparr>)
      | M_Wait_file \<Rightarrow>
          Some (if outCount_2 self > outCount_3 self then self\<lparr>manage := M_Wait\<rparr>
                else self\<lparr>manage := M_Wait_chan\<rparr>)
      | M_Wait_chan \<Rightarrow>
          Some (if length (FileChan self) > 0 then self\<lparr>manage := M_Wait\<rparr>
                else self\<lparr>manage := M_Report\<rparr>)
      | M_Report \<Rightarrow> Some ((Report self)\<lparr>manage := M_Done\<rparr>)
      | M_Done \<Rightarrow> None
      | M_Panic \<Rightarrow> None)"

text \<open>
  The goroutine of \<^verbatim>\<open>goOutput\<close>: \<^verbatim>\<open>self.Output(dataIndex)\<close>, then
  \<^verbatim>\<open>self.outCount[1]++\<close>, after which it ends.  \<open>Output\<close> is the modelled effect of
  the first statement.  The increment reads the counter in one step and writes the value
  read plus one in the next, whatever the counter holds by then.
\<close>

definition Output :: "'d list \<Rightarrow> ('d, 'f) Collector \<Rightarrow> ('d, 'f) Collector" where
  "Output batch self =
     setDataSum (word_of_nat (length batch)) (self\<lparr>written := written self @ [batch]\<rparr>)"

definition remove_nth :: "nat \<Rightarrow> 'a list \<Rightarrow> 'a list" where
  "remove_nth i xs = take i xs @ drop (Suc i) xs"

definition output_step :: "nat \<Rightarrow> ('d, 'f) Collector \<Rightarrow> ('d, 'f) Collector option" where
  "output_step i self =
     (if i < length (outputs self) then
        (case outputs self ! i of
           Running dataIndex batch \<Rightarrow>
             Some ((Output batch self)\<lparr>outputs := (outputs self)[i := Counting]\<rparr>)
         | Counting \<Rightarrow>
             Some (self\<lparr>outputs := (outputs self)[i := Storing (outCount_1 self)]\<rparr>)
         | Storing v \<Rightarrow>
             Some (self\<lparr>outCount_1 := v + 1, outputs := remove_nth i (outputs self)\<rparr>))
      else None)"

text \<open>
  Modelled from the spec: \<^verbatim>\<open>SaveFile\<close>, which \<^verbatim>\<open>Manage\<close> starts as a goroutine.  The
  spec: a dedicated worker drains the file queue for the task's whole lifetime; the
  Collector has a counter of file outputs started and one of file outputs finished;
  \<^verbatim>\<open>sum[2]\<close> is the running total of files.  In the model the worker receives a file
  from the queue in one step (\<open>SaveFile\<close>), counts its output as started in a second,
  and in a third writes it, adds it to the total with \<^verbatim>\<open>setFileSum\<close> and counts it as
  finished (\<open>file_output_step\<close>).
\<close>

definition SaveFile :: "('d, 'f) Collector \<Rightarrow> ('d, 'f) Collector option" where
  "SaveFile self =
     (if SaveFile_started self then
        (case FileChan self of
           [] \<Rightarrow> None
         | file # rest \<Rightarrow>
             Some (self\<lparr>FileChan := rest,
                        file_outputs := file_outputs self @ [Received file]\<rparr>))
      else None)"

definition file_output_step :: "nat \<Rightarrow> ('d, 'f) Collector \<Rightarrow> ('d, 'f) Collector option" where
  "file_output_step i self =
     (if i < length (file_outputs self) then
        (case file_outputs self ! i of
           Received file \<Rightarrow>
             Some (self\<lparr>outCount_2 := outCount_2 self + 1,
                        file_outputs := (file_outputs self)[i := Saving file]\<rparr>)
         | Saving file \<Rightarrow>
             Some ((setFileSum 1 self)\<lparr>outCount_3 := outCount_3 self + 1,
                                       file_outputs := remove_nth i (file_outputs self)\<rparr>))
      else None)"

subsection \<open>Runs\<close>

text \<open>
  One step of the whole: a producer submits an item or a file, the runner requests the
  shutdown (\<^verbatim>\<open>CtrlR\<close>), or one of the goroutines takes its next step.  A run is
  a list of such steps; it has a result when every step could be taken in its turn.
\<close>

datatype ('d, 'f) action =
  A_CollectData 'd | A_CollectFile 'f | A_CtrlR | A_Manage | A_Output nat | A_SaveFile
  | A_FileOutput nat

fun step :: "Task \<Rightarrow> ('d, 'f) action \<Rightarrow> ('d, 'f) Collector \<Rightarrow> ('d, 'f) Collector option" where
  "step T (A_CollectData x) self = CollectData T x self"
| "step T (A_CollectFile f) self = CollectFile f self"
| "step T A_CtrlR self = CtrlR self"
| "step T A_Manage self = Manage T self"
| "step T (A_Output i) self = output_step i self"
| "step T A_SaveFile self = SaveFile self"
| "step T (A_FileOutput i) self = file_output_step i self"

fun exec :: "Task \<Rightarrow> ('d, 'f) action list \<Rightarrow> ('d, 'f) Collector \<Rightarrow> ('d, 'f) Collector option" where
  "exec T [] self = Some self"
| "exec T (a # as) self = (case step T a self of None \<Rightarrow> None | Some self' \<Rightarrow> exec T as self')"

text \<open>The items that a run submits, in order.\<close>

fun submitted :: "('d, 'f) action list \<Rightarrow> 'd list" where
  "submitted [] = []"
| "submitted (A_CollectData x # as) = x # submitted as"
| "submitted (a # as) = submitted as"

text \<open>The batches held by the goroutines that have not yet run \<^verbatim>\<open>Output\<close>.\<close>

fun pending :: "'d go_output list \<Rightarrow> 'd list list" where
  "pending [] = []"
| "pending (Running i b # os) = b # pending os"
| "pending (Counting # os) = pending os"
| "pending (Storing v # os) = pending os"

subsection \<open>Invariants of a run\<close>

text \<open>
  The counter of started text outputs is ahead of the counter of finished ones by at
  least the number of goroutines that have not ended, and so it is of every value that
  such a goroutine has read and not yet written back.
\<close>

definition inv_count :: "('d, 'f) Collector \<Rightarrow> bool" where
  "inv_count s =
     (outCount_1 s + length (outputs s) \<le> outCount_0 s
      \<and> (\<forall>v. Storing v \<in> set (outputs s) \<longrightarrow> v + length (outputs s) \<le> outCount_0 s))"

text \<open>The current index is in range and every docker but the current one is empty.\<close>

definition inv_dockers :: "('d, 'f) Collector \<Rightarrow> bool" where
  "inv_dockers s =
     (Curr s < length (Dockers s)
      \<and> (\<forall>i < length (Dockers s). i \<noteq> Curr s \<longrightarrow> Dockers s ! i = []))"

text \<open>
  \<^verbatim>\<open>Manage\<close> does not panic; the control channel holds at most the value that
  \<^verbatim>\<open>Manage\<close> wrote; the file worker runs from \<^verbatim>\<open>go self.SaveFile()\<close> on; while
  \<^verbatim>\<open>Manage\<close> is past the first operand of the second loop's condition (at the
  second or the third operand, or past the loop) no output goroutine remains; the report
  channel is empty until \<^verbatim>\<open>Report\<close> and holds its one report after it, with the
  totals of that moment; the counter of started text outputs is the number of
  \<^verbatim>\<open>goOutput\<close> calls.
\<close>

definition inv_misc :: "('d, 'f) Collector \<Rightarrow> bool" where
  "inv_misc s =
     (manage s \<noteq> M_Panic
      \<and> (manage s = M_CtrlW \<longrightarrow> ctrl s = [])
      \<and> length (ctrl s) \<le> 1
      \<and> (manage s \<noteq> M_CtrlW \<and> manage s \<noteq> M_SaveFile \<longrightarrow> SaveFile_started s)
      \<and> (manage s = M_Wait_file \<or> manage s = M_Wait_chan \<or> manage s = M_Report
           \<or> manage s = M_Done \<longrightarrow> outputs s = [])
      \<and> (manage s \<noteq> M_Done \<longrightarrow> ReportChan s = [])
      \<and> (manage s = M_Done \<longrightarrow>
            map DataNum (ReportChan s) = [sum_1 s]
            \<and> map SpiderName (ReportChan s) = [Spider_Name s]
            \<and> map Keyword (ReportChan s) = [Spider_Keyword s])
      \<and> outCount_0 s = length (triggered s))"

definition inv_all :: "('d, 'f) Collector \<Rightarrow> bool" where
  "inv_all s = (inv_dockers s \<and> inv_count s \<and> inv_misc s)"

text \<open>
  The size at which \<^verbatim>\<open>dockerOne\<close> hands a docker over: the capacity, and one item
  when the capacity is below one (\<^verbatim>\<open>len >= cap\<close> holds after every append).
\<close>

definition batch_size :: "Task \<Rightarrow> nat" where
  "batch_size T = nat (max 1 (DockerCap T))"

text \<open>The final \<^verbatim>\<open>goOutput\<close> of \<^verbatim>\<open>Manage\<close> has been executed.\<close>

definition final_done :: "('d, 'f) Collector \<Rightarrow> bool" where
  "final_done s =
     (manage s = M_Wait \<or> manage s = M_Wait_file \<or> manage s = M_Wait_chan
      \<or> manage s = M_Report \<or> manage s = M_Done)"

text \<open>
  Every batch triggered in the first loop has the full size and the current docker is
  below it; after the final \<^verbatim>\<open>goOutput\<close> the last batch is that docker's content,
  and the current docker is empty.
\<close>

definition inv_batches :: "Task \<Rightarrow> ('d, 'f) Collector \<Rightarrow> bool" where
  "inv_batches T s =
     (if final_done s then
        triggered s \<noteq> []
        \<and> list_all (\<lambda>b. length b = batch_size T) (butlast (triggered s))
        \<and> length (last (triggered s)) < batch_size T
        \<and> Dockers s ! Curr s = []
      else
        list_all (\<lambda>b. length b = batch_size T) (triggered s)
        \<and> length (Dockers s ! Curr s) < batch_size T)"

text \<open>
  The batches triggered are those written and those still held by a goroutine, as
  multisets; \<^verbatim>\<open>sum[1]\<close> is the number of items written.
\<close>

definition inv_written :: "('d, 'f) Collector \<Rightarrow> bool" where
  "inv_written s =
     (mset (triggered s) = mset (written s) + mset (pending (outputs s))
      \<and> sum_1 s = word_of_nat (length (concat (written s))))"

definition inv_run :: "Task \<Rightarrow> ('d, 'f) Collector \<Rightarrow> bool" where
  "inv_run T s = (inv_all s \<and> inv_batches T s \<and> inv_written s)"

text \<open>The first loop of \<^verbatim>\<open>Manage\<close> has been left.\<close>

definition loop_exited :: "('d, 'f) Collector \<Rightarrow> bool" where
  "loop_exited s = (manage s = M_Final \<or> final_done s)"

text \<open>
  \<^verbatim>\<open>Manage\<close> is in its second loop, no output goroutine is left, and the counter of
  finished text outputs is behind the counter of started ones.
\<close>

definition stuck :: "('d, 'f) Collector \<Rightarrow> bool" where
  "stuck s =
     (manage s = M_Wait \<and> outputs s = [] \<and> outCount_1 s < outCount_0 s \<and> ReportChan s = [])"

subsection \<open>Sample runs\<close>

text \<open>
  Two tasks, with docker capacity 3 and 1.  \<open>run_of items outs\<close>: \<^verbatim>\<open>Manage\<close> starts,
  the items are submitted, the shutdown is requested, \<^verbatim>\<open>Manage\<close> drains the queue
  and triggers the final output, \<open>outs\<close> output goroutines run to their end one after
  the other, and \<^verbatim>\<open>Manage\<close> finds the three operands false and reports.

  \<open>run_lost_increment\<close>: with capacity 3 and four items the two output goroutines both
  run \<^verbatim>\<open>Output\<close>, both read \<^verbatim>\<open>outCount[1]\<close>, and then both write it.
  \<open>run_file_in_flight\<close>: a file is in the queue when \<^verbatim>\<open>Manage\<close> evaluates the second
  operand, and the file worker receives it before \<^verbatim>\<open>Manage\<close> evaluates the third.
\<close>

definition task_cap3 :: Task where
  "task_cap3 = \<lparr>DockerCap = 3, DATA_CAP = 16, DockerQueueCap = 2\<rparr>"


definition run_of :: "nat list \<Rightarrow> nat \<Rightarrow> (nat, nat) action list" where
  "run_of items outs =
     [A_Manage, A_Manage] @ map A_CollectData items @ [A_CtrlR]
       @ replicate (2 * length items + 2) A_Manage
       @ replicate (3 * outs) (A_Output 0) @ [A_Manage, A_Manage, A_Manage, A_Manage]"

definition run_lost_increment :: "(nat, nat) action list" where
  "run_lost_increment =
     [A_Manage, A_Manage] @ map A_CollectData [11, 12, 13, 14] @ [A_CtrlR]
       @ replicate 10 A_Manage
       @ [A_Output 0, A_Output 1, A_Output 0, A_Output 1, A_Output 0, A_Output 0]"

definition run_file_in_flight :: "(nat, nat) action list" where
  "run_file_in_flight =
     [A_Manage, A_Manage, A_CollectFile 21, A_CtrlR, A_Manage, A_Manage,
      A_Output 0, A_Output 0, A_Output 0, A_Manage, A_Manage, A_SaveFile, A_Manage, A_Manage]"

definition final_state :: "Task \<Rightarrow> (nat, nat) action list \<Rightarrow> (nat, nat) Collector" where
  "final_state T as = the (exec T as (Init T ''spider'' ''key''))"

section \<open>Properties of the History Ledger\<close>

text \<open>
  C3: \<open>UpsertSuccess\<close> returns true exactly when the record's fingerprint is absent from
  both \<open>old\<close> and \<open>new\<close>; a call that returns false leaves the ledger as it was; and from
  a ledger without the fingerprint, two calls in succession return true and then false,
  the second changes nothing, and afterwards the fingerprint is in \<open>new\<close> and not in
  \<open>old\<close>, which is the only change to the sets.
\<close>

theorem UpsertSuccess_idempotent:
  "fst (UpsertSuccess fp r h) = (Success_old h (fp r) = None \<and> Success_new h (fp r) = None)
   \<and> (\<not> fst (UpsertSuccess fp r h) \<longrightarrow> snd (UpsertSuccess fp r h) = h)
   \<and> (Success_old h (fp r) = None \<and> Success_new h (fp r) = None \<longrightarrow>
        UpsertSuccess fp r h = (True, h\<lparr>Success_new := (Success_new h)(fp r \<mapsto> True)\<rparr>)
        \<and> UpsertSuccess fp r (snd (UpsertSuccess fp r h)) = (False, snd (UpsertSuccess fp r h))
        \<and> Success_new (snd (UpsertSuccess fp r h)) (fp r) = Some True
        \<and> Success_old (snd (UpsertSuccess fp r h)) (fp r) = None)"
  by (simp add: UpsertSuccess_def)

theorem UpsertSuccess_idempotent_witness:
  "Success_old New (fingerprint_example record_example) = None
   \<and> Success_new New (fingerprint_example record_example) = None
   \<and> UpsertSuccess fingerprint_example record_example New =
       (True, New\<lparr>Success_new := [''http://a/GET'' \<mapsto> True]\<rparr>)
   \<and> UpsertSuccess fingerprint_example record_example
        (New\<lparr>Success_new := [''http://a/GET'' \<mapsto> True]\<rparr>) =
       (False, New\<lparr>Success_new := [''http://a/GET'' \<mapsto> True]\<rparr>)
   \<and> snd (UpsertSuccess fingerprint_example record_example
        (New\<lparr>Success_new := [''http://a/GET'' \<mapsto> True]\<rparr>)) =
       New\<lparr>Success_new := [''http://a/GET'' \<mapsto> True]\<rparr>"
proof -
  have a: "Success_old New (fingerprint_example record_example) = None
      \<and> Success_new New (fingerprint_example record_example) = None"
    by (simp add: New_def)
  have f: "fingerprint_example record_example = ''http://a/GET''"
    by (simp add: fingerprint_example_def record_example_def)
  have n: "Success_new New = Map.empty" by (simp add: New_def)
  note u = UpsertSuccess_idempotent [of fingerprint_example record_example New]
  from u a have u1: "UpsertSuccess fingerprint_example record_example New =
         (True, New\<lparr>Success_new :=
            (Success_new New)(fingerprint_example record_example \<mapsto> True)\<rparr>)"
    by blast
  from u a have u2: "UpsertSuccess fingerprint_example record_example
           (snd (UpsertSuccess fingerprint_example record_example New)) =
         (False, snd (UpsertSuccess fingerprint_example record_example New))"
    by blast
  from u2 have u3: "UpsertSuccess fingerprint_example record_example
           (New\<lparr>Success_new := [''http://a/GET'' \<mapsto> True]\<rparr>) =
         (False, New\<lparr>Success_new := [''http://a/GET'' \<mapsto> True]\<rparr>)"
    by (simp add: u1 f n)
  note v = UpsertSuccess_idempotent [of fingerprint_example record_example
      "New\<lparr>Success_new := [''http://a/GET'' \<mapsto> True]\<rparr>"]
  from v have "\<not> fst (UpsertSuccess fingerprint_example record_example
      (New\<lparr>Success_new := [''http://a/GET'' \<mapsto> True]\<rparr>))"
    by (simp add: f)
  with v have u4: "snd (UpsertSuccess fingerprint_example record_example
      (New\<lparr>Success_new := [''http://a/GET'' \<mapsto> True]\<rparr>)) =
      New\<lparr>Success_new := [''http://a/GET'' \<mapsto> True]\<rparr>"
    by blast
  from a u1 u3 u4 show ?thesis by (simp add: f n)
qed

lemma backend_calls_append: "backend_calls (xs @ ys) = backend_calls xs @ backend_calls ys"
  by (induction xs rule: backend_calls.induct) simp_all

lemma ReadSuccess_mgo_result:
  "ReadSuccess_mgo E h = (tr, r) \<Longrightarrow>
     backend_calls tr \<noteq> [] \<and> (\<forall>h1. r = Inr h1 \<longrightarrow> Success_inheritable h1 = Success_inheritable h \<and> Success_new h1 = Success_new h)"
  by (auto simp: ReadSuccess_mgo_def split: sum.splits prod.splits) 

lemma ReadSuccess_mysql_result:
  "ReadSuccess_mysql E h = (tr, r) \<Longrightarrow>
     backend_calls tr \<noteq> [] \<and> (\<forall>h1. r = Inr h1 \<longrightarrow> Success_inheritable h1 = Success_inheritable h \<and> Success_new h1 = Success_new h)"
  by (auto simp: ReadSuccess_mysql_def split: sum.splits prod.splits option.splits)

lemma ReadSuccess_file_result:
  "ReadSuccess_file E h = (tr, r) \<Longrightarrow>
     backend_calls tr \<noteq> [] \<and> (\<forall>h1. r = Inr h1 \<longrightarrow> Success_inheritable h1 = Success_inheritable h \<and> Success_new h1 = Success_new h)"
  by (auto simp: ReadSuccess_file_def split: sum.splits prod.splits list.splits)

lemma ReadSuccess_no_inherit:
  "ReadSuccess E p False h =
     ([Lock, Wr F_provider, Unlock, Wr F_Success_old, Wr F_Success_new, Wr F_Success_inheritable],
      Inr (h\<lparr>provider := p, Success_old := Map.empty, Success_new := Map.empty,
             Success_inheritable := False\<rparr>))"
  by (simp add: ReadSuccess_def)

lemma ReadSuccess_skip:
  "Success_inheritable h \<Longrightarrow>
     ReadSuccess E p True h =
       ([Lock, Wr F_provider, Unlock, Rd F_Success_inheritable], Inr (h\<lparr>provider := p\<rparr>))"
  by (simp add: ReadSuccess_def)

lemma ReadSuccess_load:
  assumes "\<not> Success_inheritable h" and "ReadSuccess E p True h = (tr, r)"
  shows "backend_calls tr \<noteq> []"
    and "r = Inr h1 \<Longrightarrow> Success_inheritable h1 \<and> Success_new h1 = Map.empty"
proof -
  let ?s = "h\<lparr>provider := p, Success_old := Map.empty, Success_new := Map.empty,
               Success_inheritable := True\<rparr>"
  obtain tr' where tr: "tr = [Lock, Wr F_provider, Unlock, Rd F_Success_inheritable,
        Wr F_Success_old, Wr F_Success_new, Wr F_Success_inheritable] @ tr'"
    and br: "(if p = ''mgo'' then ReadSuccess_mgo E ?s
              else if p = ''mysql'' then ReadSuccess_mysql E ?s
              else ReadSuccess_file E ?s) = (tr', r)"
    using assms by (auto simp: ReadSuccess_def Let_def split: prod.splits)
  from br have res: "backend_calls tr' \<noteq> [] \<and>
      (\<forall>h1. r = Inr h1 \<longrightarrow> Success_inheritable h1 = Success_inheritable ?s \<and> Success_new h1 = Success_new ?s)"
  proof (cases "p = ''mgo''")
    case True
    with br show ?thesis using ReadSuccess_mgo_result [of E ?s tr' r] by simp
  next
    case False
    show ?thesis
    proof (cases "p = ''mysql''")
      case True
      with br \<open>p \<noteq> ''mgo''\<close> show ?thesis
        using ReadSuccess_mysql_result [of E ?s tr' r] by simp
    next
      case False
      with br \<open>p \<noteq> ''mgo''\<close> show ?thesis
        using ReadSuccess_file_result [of E ?s tr' r] by simp
    qed
  qed
  show "backend_calls tr \<noteq> []" using res by (simp add: tr)
  show "r = Inr h1 \<Longrightarrow> Success_inheritable h1 \<and> Success_new h1 = Map.empty"
    using res by auto
qed

text \<open>
  C4: \<open>ReadSuccess\<close> with \<open>inherit\<close> false records the provider, resets \<open>old\<close> and \<open>new\<close>
  to empty and marks the ledger not inheritable, whatever the ledger was, and calls no
  backend.  When a call with \<open>inherit\<close> true has returned, a second such call (with any
  provider, against any backend) only records the provider: it calls no backend and
  leaves the sets as they are.  The first call called a backend exactly when the ledger
  was not yet marked inheritable, so the two calls load at most once.
\<close>

theorem ReadSuccess_inherit_once:
  "ReadSuccess E p False h =
     ([Lock, Wr F_provider, Unlock, Wr F_Success_old, Wr F_Success_new, Wr F_Success_inheritable],
      Inr (h\<lparr>provider := p, Success_old := Map.empty, Success_new := Map.empty,
             Success_inheritable := False\<rparr>))
   \<and> (ReadSuccess E p True h = (tr, Inr h1) \<longrightarrow>
        ReadSuccess E' q True h1 =
          ([Lock, Wr F_provider, Unlock, Rd F_Success_inheritable], Inr (h1\<lparr>provider := q\<rparr>))
        \<and> (backend_calls tr = []) = Success_inheritable h)"
proof (intro conjI impI)
  show "ReadSuccess E p False h =
     ([Lock, Wr F_provider, Unlock, Wr F_Success_old, Wr F_Success_new, Wr F_Success_inheritable],
      Inr (h\<lparr>provider := p, Success_old := Map.empty, Success_new := Map.empty,
             Success_inheritable := False\<rparr>))"
    by (rule ReadSuccess_no_inherit)
next
  assume a: "ReadSuccess E p True h = (tr, Inr h1)"
  have inh: "Success_inheritable h1"
  proof (cases "Success_inheritable h")
    case True
    with a show ?thesis by (auto simp: ReadSuccess_skip)
  next
    case False
    from ReadSuccess_load(2) [OF False a] show ?thesis by simp
  qed
  then show "ReadSuccess E' q True h1 =
          ([Lock, Wr F_provider, Unlock, Rd F_Success_inheritable], Inr (h1\<lparr>provider := q\<rparr>))"
    by (rule ReadSuccess_skip)
  show "(backend_calls tr = []) = Success_inheritable h"
  proof (cases "Success_inheritable h")
    case True
    with a show ?thesis by (auto simp: ReadSuccess_skip)
  next
    case False
    from ReadSuccess_load(1) [OF False a] False show ?thesis by simp
  qed
qed

theorem ReadSuccess_inherit_once_witness:
  "ReadSuccess env_example ''file'' True New =
     ([Lock, Wr F_provider, Unlock, Rd F_Success_inheritable, Wr F_Success_old,
       Wr F_Success_new, Wr F_Success_inheritable, Backend (Os_Open ''cache/history_y''),
       Backend Ioutil_ReadAll, Wr F_Success_old, Rd F_Success_old],
      Inr (New\<lparr>provider := ''file'', Success_inheritable := True,
               Success_old := [''k'' \<mapsto> True]\<rparr>))
   \<and> ReadSuccess env_example ''file'' True
        (New\<lparr>provider := ''file'', Success_inheritable := True,
               Success_old := [''k'' \<mapsto> True]\<rparr>) =
       ([Lock, Wr F_provider, Unlock, Rd F_Success_inheritable],
        Inr (New\<lparr>provider := ''file'', Success_inheritable := True,
               Success_old := [''k'' \<mapsto> True]\<rparr>))"
proof -
  have a: "ReadSuccess env_example ''file'' True New =
     ([Lock, Wr F_provider, Unlock, Rd F_Success_inheritable, Wr F_Success_old,
       Wr F_Success_new, Wr F_Success_inheritable, Backend (Os_Open ''cache/history_y''),
       Backend Ioutil_ReadAll, Wr F_Success_old, Rd F_Success_old],
      Inr (New\<lparr>provider := ''file'', Success_inheritable := True,
               Success_old := [''k'' \<mapsto> True]\<rparr>))"
    by (simp add: ReadSuccess_def ReadSuccess_file_def env_example_def New_def
        success_file_content_def success_file_json_def)
  from ReadSuccess_inherit_once [of env_example "''file''" New _ _ env_example "''file''"] a
  show ?thesis by simp
qed

lemma Empty_locked: "locked False (fst (Empty h))"
  by (simp add: Empty_def)

text \<open>
  C5, as stated, fails: a ledger that an inheriting read has marked inheritable stays
  marked through \<open>Empty\<close>, so the next inheriting read is skipped.  From the new ledger,
  the first read loads the file; after \<open>Empty\<close> the second read calls no backend and
  \<open>old\<close> stays empty although the file holds a record.
\<close>

theorem Empty_then_ReadSuccess_skipped:
  "ReadSuccess env_example ''file'' True New =
     ([Lock, Wr F_provider, Unlock, Rd F_Success_inheritable, Wr F_Success_old,
       Wr F_Success_new, Wr F_Success_inheritable, Backend (Os_Open ''cache/history_y''),
       Backend Ioutil_ReadAll, Wr F_Success_old, Rd F_Success_old],
      Inr ledger_loaded)
   \<and> ReadSuccess env_example ''file'' True (snd (Empty ledger_loaded)) =
       ([Lock, Wr F_provider, Unlock, Rd F_Success_inheritable],
        Inr (ledger_loaded\<lparr>Success_old := Map.empty\<rparr>))
   \<and> backend_calls (fst (ReadSuccess env_example ''file'' True (snd (Empty ledger_loaded)))) = []"
  by (simp add: ReadSuccess_def ReadSuccess_file_def env_example_def New_def Empty_def
      ledger_loaded_def success_file_content_def success_file_json_def)

text \<open>
  C5, amended: \<open>Empty\<close> clears \<open>new\<close>, \<open>old\<close> and the Failure Index between one \<open>Lock\<close>
  and its \<open>Unlock\<close>, and leaves both inheritable marks as they were.  A following
  \<open>ReadSuccess\<close> with \<open>inherit\<close> true is skipped (it only records the provider, and the
  sets stay empty) when the ledger was marked inheritable before the \<open>Empty\<close>, and
  calls the backend when it was not.
\<close>

theorem Empty_keeps_inheritable:
  "Empty h =
     ([Lock, Wr F_Success_new, Wr F_Success_old, Wr F_Failure_list, Unlock],
      h\<lparr>Success_new := Map.empty, Success_old := Map.empty, Failure_list := Map.empty\<rparr>)
   \<and> locked False (fst (Empty h))
   \<and> Success_inheritable (snd (Empty h)) = Success_inheritable h
   \<and> Failure_inheritable (snd (Empty h)) = Failure_inheritable h
   \<and> (Success_inheritable h \<longrightarrow>
        ReadSuccess E p True (snd (Empty h)) =
          ([Lock, Wr F_provider, Unlock, Rd F_Success_inheritable],
           Inr ((snd (Empty h))\<lparr>provider := p\<rparr>)))
   \<and> (\<not> Success_inheritable h \<longrightarrow>
        backend_calls (fst (ReadSuccess E p True (snd (Empty h)))) \<noteq> [])"
proof -
  have e: "Empty h =
     ([Lock, Wr F_Success_new, Wr F_Success_old, Wr F_Failure_list, Unlock],
      h\<lparr>Success_new := Map.empty, Success_old := Map.empty, Failure_list := Map.empty\<rparr>)"
    by (simp add: Empty_def)
  have i: "Success_inheritable (snd (Empty h)) = Success_inheritable h"
    "Failure_inheritable (snd (Empty h)) = Failure_inheritable h"
    by (simp_all add: Empty_def)
  have s: "Success_inheritable h \<longrightarrow>
        ReadSuccess E p True (snd (Empty h)) =
          ([Lock, Wr F_provider, Unlock, Rd F_Success_inheritable],
           Inr ((snd (Empty h))\<lparr>provider := p\<rparr>))"
    using i(1) by (simp add: ReadSuccess_skip)
  have l: "\<not> Success_inheritable h \<longrightarrow>
        backend_calls (fst (ReadSuccess E p True (snd (Empty h)))) \<noteq> []"
  proof
    assume "\<not> Success_inheritable h"
    then have n: "\<not> Success_inheritable (snd (Empty h))" using i(1) by simp
    show "backend_calls (fst (ReadSuccess E p True (snd (Empty h)))) \<noteq> []"
      using ReadSuccess_load(1) [OF n, of E p "fst (ReadSuccess E p True (snd (Empty h)))"
          "snd (ReadSuccess E p True (snd (Empty h)))"] by simp
  qed
  from e i s l Empty_locked show ?thesis by blast
qed

theorem Empty_keeps_inheritable_witness:
  "Success_inheritable ledger_loaded \<and> \<not> Success_inheritable New
   \<and> ReadSuccess env_example ''file'' True (snd (Empty ledger_loaded)) =
       ([Lock, Wr F_provider, Unlock, Rd F_Success_inheritable],
        Inr ((snd (Empty ledger_loaded))\<lparr>provider := ''file''\<rparr>))
   \<and> backend_calls (fst (ReadSuccess env_example ''file'' True (snd (Empty New)))) \<noteq> []"
proof -
  have a: "Success_inheritable ledger_loaded" by (simp add: ledger_loaded_def New_def)
  have b: "\<not> Success_inheritable New" by (simp add: New_def)
  from Empty_keeps_inheritable [of ledger_loaded env_example "''file''"]
    Empty_keeps_inheritable [of New env_example "''file''"] a b
  show ?thesis by blast
qed

lemma ReadSuccess_file_missing:
  "os_Open E (SUCCESS_FILE_FULL E) = Inl err \<Longrightarrow> \<not> Success_inheritable h \<Longrightarrow>
   p \<noteq> ''mgo'' \<Longrightarrow> p \<noteq> ''mysql'' \<Longrightarrow>
   snd (ReadSuccess E p True h) =
     Inr (h\<lparr>provider := p, Success_old := Map.empty, Success_new := Map.empty,
            Success_inheritable := True\<rparr>)"
  by (simp add: ReadSuccess_def ReadSuccess_file_def)

lemma ReadSuccess_file_content:
  "os_Open E (SUCCESS_FILE_FULL E) = Inr (b0 # bs) \<Longrightarrow> \<not> Success_inheritable h \<Longrightarrow>
   p \<noteq> ''mgo'' \<Longrightarrow> p \<noteq> ''mysql'' \<Longrightarrow>
   snd (ReadSuccess E p True h) =
     Inr (h\<lparr>provider := p, Success_new := Map.empty, Success_inheritable := True,
            Success_old := json_Unmarshal_set E (CHR ''{'' # bs @ ''}'') Map.empty\<rparr>)"
  by (simp add: ReadSuccess_def ReadSuccess_file_def)

lemma ReadSuccess_file_empty:
  "os_Open E (SUCCESS_FILE_FULL E) = Inr [] \<Longrightarrow> \<not> Success_inheritable h \<Longrightarrow>
   p \<noteq> ''mgo'' \<Longrightarrow> p \<noteq> ''mysql'' \<Longrightarrow>
   snd (ReadSuccess E p True h) = Inl IndexOutOfRange"
  by (simp add: ReadSuccess_def ReadSuccess_file_def)

lemma ReadFailure_file_missing:
  "os_Open E (FAILURE_FILE_FULL E) = Inl err \<Longrightarrow> \<not> Failure_inheritable h \<Longrightarrow>
   p \<noteq> ''mgo'' \<Longrightarrow> p \<noteq> ''mysql'' \<Longrightarrow>
   snd (ReadFailure E p True h) =
     Inr (h\<lparr>provider := p, Failure_list := Map.empty, Failure_inheritable := True\<rparr>)"
  by (simp add: ReadFailure_def ReadFailure_file_def)

lemma ReadFailure_file_content:
  "os_Open E (FAILURE_FILE_FULL E) = Inr (b0 # bs) \<Longrightarrow> \<not> Failure_inheritable h \<Longrightarrow>
   p \<noteq> ''mgo'' \<Longrightarrow> p \<noteq> ''mysql'' \<Longrightarrow>
   snd (ReadFailure E p True h) =
     Inr (h\<lparr>provider := p, Failure_inheritable := True,
            Failure_list := json_Unmarshal_index E (CHR ''{'' # bs @ ''}'') Map.empty\<rparr>)"
  by (simp add: ReadFailure_def ReadFailure_file_def)

lemma ReadFailure_file_empty:
  "os_Open E (FAILURE_FILE_FULL E) = Inr [] \<Longrightarrow> \<not> Failure_inheritable h \<Longrightarrow>
   p \<noteq> ''mgo'' \<Longrightarrow> p \<noteq> ''mysql'' \<Longrightarrow>
   snd (ReadFailure E p True h) = Inl IndexOutOfRange"
  by (simp add: ReadFailure_def ReadFailure_file_def)

text \<open>
  C7: the claim holds for a history file that does not exist (\<open>ReadSuccess_file_missing\<close>,
  \<open>ReadFailure_file_missing\<close>) and for one with content (\<open>ReadSuccess_file_content\<close>,
  \<open>ReadFailure_file_content\<close>: the decoder's error is dropped), and fails for a file that
  exists and is empty: \<^verbatim>\<open>b[0] = '{'\<close> indexes a slice of length 0, and both reads
  panic after marking the ledger inheritable.
\<close>

theorem Read_empty_file_panics:
  "ReadSuccess env_empty_files ''file'' True New =
     ([Lock, Wr F_provider, Unlock, Rd F_Success_inheritable, Wr F_Success_old,
       Wr F_Success_new, Wr F_Success_inheritable, Backend (Os_Open ''cache/history_y''),
       Backend Ioutil_ReadAll],
      Inl IndexOutOfRange)
   \<and> ReadFailure env_empty_files ''file'' True New =
     ([Lock, Wr F_provider, Unlock, Rd F_Failure_inheritable, Wr F_Failure_list,
       Wr F_Failure_inheritable, Backend (Os_Open ''cache/history_n''),
       Backend Ioutil_ReadAll],
      Inl IndexOutOfRange)"
  by (simp add: ReadSuccess_def ReadSuccess_file_def ReadFailure_def ReadFailure_file_def
      env_empty_files_def env_example_def New_def)

lemma ReadSuccess_unlocked: "\<not> locked False (fst (ReadSuccess E p i h))"
  by (simp add: ReadSuccess_def Let_def split: prod.splits)

lemma ReadFailure_unlocked: "\<not> locked False (fst (ReadFailure E p i h))"
  by (simp add: ReadFailure_def Let_def split: prod.splits)

text \<open>
  C8: \<open>ReadSuccess\<close> and \<open>ReadFailure\<close> hold the lock only while they record the
  provider; they reset the sets after \<open>Unlock\<close>.  (\<open>Empty\<close> resets the same sets between
  \<open>Lock\<close> and \<open>Unlock\<close>: \<open>Empty_locked\<close>.)
\<close>

theorem Read_outside_lock:
  "fst (ReadSuccess env_example ''file'' False New) =
     [Lock, Wr F_provider, Unlock, Wr F_Success_old, Wr F_Success_new, Wr F_Success_inheritable]
   \<and> \<not> locked False (fst (ReadSuccess env_example ''file'' False New))
   \<and> fst (ReadFailure env_example ''file'' False New) =
     [Lock, Wr F_provider, Unlock, Wr F_Failure_list, Wr F_Failure_inheritable]
   \<and> \<not> locked False (fst (ReadFailure env_example ''file'' False New))"
  by (simp add: ReadSuccess_def ReadFailure_def)

lemma ReadSuccess_unfold_load:
  "\<not> Success_inheritable h \<Longrightarrow> p \<noteq> ''mgo'' \<Longrightarrow> p \<noteq> ''mysql'' \<Longrightarrow>
   ReadSuccess E p True h =
     ([Lock, Wr F_provider, Unlock, Rd F_Success_inheritable, Wr F_Success_old,
       Wr F_Success_new, Wr F_Success_inheritable]
        @ fst (ReadSuccess_file E (h\<lparr>provider := p, Success_old := Map.empty,
                Success_new := Map.empty, Success_inheritable := True\<rparr>)),
      snd (ReadSuccess_file E (h\<lparr>provider := p, Success_old := Map.empty,
                Success_new := Map.empty, Success_inheritable := True\<rparr>)))"
  by (simp add: ReadSuccess_def split: prod.splits)

lemma ReadFailure_unfold_load:
  "\<not> Failure_inheritable h \<Longrightarrow> p \<noteq> ''mgo'' \<Longrightarrow> p \<noteq> ''mysql'' \<Longrightarrow>
   ReadFailure E p True h =
     ([Lock, Wr F_provider, Unlock, Rd F_Failure_inheritable, Wr F_Failure_list,
       Wr F_Failure_inheritable]
        @ fst (ReadFailure_file E (h\<lparr>provider := p, Failure_list := Map.empty,
                Failure_inheritable := True\<rparr>)),
      snd (ReadFailure_file E (h\<lparr>provider := p, Failure_list := Map.empty,
                Failure_inheritable := True\<rparr>)))"
  by (simp add: ReadFailure_def split: prod.splits)

lemma ReadSuccess_default:
  assumes "p \<noteq> ''mgo''" and "p \<noteq> ''mysql''"
  shows "ReadSuccess E p i h = with_provider p (ReadSuccess E ''file'' i h)"
proof -
  let ?s = "\<lambda>q. h\<lparr>provider := q, Success_old := Map.empty, Success_new := Map.empty,
                    Success_inheritable := True\<rparr>"
  have f: "ReadSuccess_file E (?s p) = with_provider p (ReadSuccess_file E (?s ''file''))"
    by (simp add: ReadSuccess_file_def with_provider_def split: sum.splits list.splits)
  show "ReadSuccess E p i h = with_provider p (ReadSuccess E ''file'' i h)"
  proof (cases "i \<and> \<not> Success_inheritable h")
    case True
    then show ?thesis
      using assms by (simp add: ReadSuccess_unfold_load with_provider_def f)
  next
    case False
    then show ?thesis by (auto simp: ReadSuccess_def with_provider_def Let_def)
  qed
qed

lemma ReadFailure_default:
  assumes "p \<noteq> ''mgo''" and "p \<noteq> ''mysql''"
  shows "ReadFailure E p i h = with_provider p (ReadFailure E ''file'' i h)"
proof -
  let ?s = "\<lambda>q. h\<lparr>provider := q, Failure_list := Map.empty, Failure_inheritable := True\<rparr>"
  have f: "ReadFailure_file E (?s p) = with_provider p (ReadFailure_file E (?s ''file''))"
    by (simp add: ReadFailure_file_def with_provider_def split: sum.splits list.splits)
  show "ReadFailure E p i h = with_provider p (ReadFailure E ''file'' i h)"
  proof (cases "i \<and> \<not> Failure_inheritable h")
    case True
    then show ?thesis
      using assms by (simp add: ReadFailure_unfold_load with_provider_def f)
  next
    case False
    then show ?thesis by (auto simp: ReadFailure_def with_provider_def Let_def)
  qed
qed

lemma ReadSuccess_default_load:
  assumes "p \<noteq> ''mgo''" and "p \<noteq> ''mysql''" and "\<not> Success_inheritable h"
  shows "backend_calls (fst (ReadSuccess E p True h)) =
       (case os_Open E (SUCCESS_FILE_FULL E) of
          Inl err \<Rightarrow> [Os_Open (SUCCESS_FILE_FULL E)]
        | Inr b \<Rightarrow> [Os_Open (SUCCESS_FILE_FULL E), Ioutil_ReadAll])"
    and "snd (ReadSuccess E p True h) =
       (case os_Open E (SUCCESS_FILE_FULL E) of
          Inl err \<Rightarrow>
            Inr (h\<lparr>provider := p, Success_old := Map.empty, Success_new := Map.empty,
                   Success_inheritable := True\<rparr>)
        | Inr [] \<Rightarrow> Inl IndexOutOfRange
        | Inr (b0 # bs) \<Rightarrow>
            Inr (h\<lparr>provider := p, Success_new := Map.empty, Success_inheritable := True,
                   Success_old := json_Unmarshal_set E (CHR ''{'' # bs @ ''}'') Map.empty\<rparr>))"
  using assms
  by (simp_all add: ReadSuccess_unfold_load ReadSuccess_file_def backend_calls_append
      split: sum.splits list.splits)

lemma ReadFailure_default_load:
  assumes "p \<noteq> ''mgo''" and "p \<noteq> ''mysql''" and "\<not> Failure_inheritable h"
  shows "backend_calls (fst (ReadFailure E p True h)) =
       (case os_Open E (FAILURE_FILE_FULL E) of
          Inl err \<Rightarrow> [Os_Open (FAILURE_FILE_FULL E)]
        | Inr b \<Rightarrow> [Os_Open (FAILURE_FILE_FULL E), Ioutil_ReadAll])"
    and "snd (ReadFailure E p True h) =
       (case os_Open E (FAILURE_FILE_FULL E) of
          Inl err \<Rightarrow>
            Inr (h\<lparr>provider := p, Failure_list := Map.empty, Failure_inheritable := True\<rparr>)
        | Inr [] \<Rightarrow> Inl IndexOutOfRange
        | Inr (b0 # bs) \<Rightarrow>
            Inr (h\<lparr>provider := p, Failure_inheritable := True,
                   Failure_list := json_Unmarshal_index E (CHR ''{'' # bs @ ''}'') Map.empty\<rparr>))"
  using assms
  by (simp_all add: ReadFailure_unfold_load ReadFailure_file_def backend_calls_append
      split: sum.splits list.splits)

text \<open>
  C9: for a provider other than \<^verbatim>\<open>"mgo"\<close> and \<^verbatim>\<open>"mysql"\<close>, each of the four
  operations does what it does for the provider \<^verbatim>\<open>"file"\<close>, up to the provider name
  recorded in the ledger.  A read that loads (\<open>inherit\<close> true, ledger not yet marked
  inheritable) opens the flat file of its kind and reads it, and calls no other backend;
  the ledger it returns is the one reset and marked when the file cannot be opened, and
  otherwise holds what the decoder makes of the file's bytes, the first replaced by an
  opening brace and a closing brace appended (and the read panics on a file of length
  0).  A flush writes to the flat file of its kind; this part rests on \<open>Success_flush\<close>
  and \<open>Failure_flush\<close>, which are modelled from the spec.
\<close>

theorem unrecognized_provider_is_file:
  assumes "p \<noteq> ''mgo''" and "p \<noteq> ''mysql''"
  shows "ReadSuccess E p i h = with_provider p (ReadSuccess E ''file'' i h)
    \<and> ReadFailure E p i h = with_provider p (ReadFailure E ''file'' i h)
    \<and> FlushSuccess E p h = (fst (FlushSuccess E ''file'' h), h\<lparr>provider := p\<rparr>)
    \<and> FlushFailure E p h = (fst (FlushFailure E ''file'' h), h\<lparr>provider := p\<rparr>)
    \<and> (\<not> Success_inheritable h \<longrightarrow>
         backend_calls (fst (ReadSuccess E p True h)) =
           (case os_Open E (SUCCESS_FILE_FULL E) of
              Inl err \<Rightarrow> [Os_Open (SUCCESS_FILE_FULL E)]
            | Inr b \<Rightarrow> [Os_Open (SUCCESS_FILE_FULL E), Ioutil_ReadAll])
         \<and> snd (ReadSuccess E p True h) =
           (case os_Open E (SUCCESS_FILE_FULL E) of
              Inl err \<Rightarrow>
                Inr (h\<lparr>provider := p, Success_old := Map.empty, Success_new := Map.empty,
                       Success_inheritable := True\<rparr>)
            | Inr [] \<Rightarrow> Inl IndexOutOfRange
            | Inr (b0 # bs) \<Rightarrow>
                Inr (h\<lparr>provider := p, Success_new := Map.empty, Success_inheritable := True,
                       Success_old :=
                         json_Unmarshal_set E (CHR ''{'' # bs @ ''}'') Map.empty\<rparr>)))
    \<and> (\<not> Failure_inheritable h \<longrightarrow>
         backend_calls (fst (ReadFailure E p True h)) =
           (case os_Open E (FAILURE_FILE_FULL E) of
              Inl err \<Rightarrow> [Os_Open (FAILURE_FILE_FULL E)]
            | Inr b \<Rightarrow> [Os_Open (FAILURE_FILE_FULL E), Ioutil_ReadAll])
         \<and> snd (ReadFailure E p True h) =
           (case os_Open E (FAILURE_FILE_FULL E) of
              Inl err \<Rightarrow>
                Inr (h\<lparr>provider := p, Failure_list := Map.empty,
                       Failure_inheritable := True\<rparr>)
            | Inr [] \<Rightarrow> Inl IndexOutOfRange
            | Inr (b0 # bs) \<Rightarrow>
                Inr (h\<lparr>provider := p, Failure_inheritable := True,
                       Failure_list :=
                         json_Unmarshal_index E (CHR ''{'' # bs @ ''}'') Map.empty\<rparr>)))
    \<and> backend_calls (fst (FlushSuccess E p h)) = [Flush_file (SUCCESS_FILE_FULL E)]
    \<and> backend_calls (fst (FlushFailure E p h)) = [Flush_file (FAILURE_FILE_FULL E)]"
proof -
  have fs: "FlushSuccess E p h = (fst (FlushSuccess E ''file'' h), h\<lparr>provider := p\<rparr>)"
    "backend_calls (fst (FlushSuccess E p h)) = [Flush_file (SUCCESS_FILE_FULL E)]"
    using assms by (simp_all add: FlushSuccess_def Success_flush_def)
  have ff: "FlushFailure E p h = (fst (FlushFailure E ''file'' h), h\<lparr>provider := p\<rparr>)"
    "backend_calls (fst (FlushFailure E p h)) = [Flush_file (FAILURE_FILE_FULL E)]"
    using assms by (simp_all add: FlushFailure_def Failure_flush_def)
  from ReadSuccess_default [OF assms] ReadFailure_default [OF assms] fs ff
    ReadSuccess_default_load [OF assms] ReadFailure_default_load [OF assms]
  show ?thesis by blast
qed

theorem unrecognized_provider_is_file_witness:
  "''redis'' \<noteq> ''mgo'' \<and> ''redis'' \<noteq> ''mysql''
   \<and> \<not> Success_inheritable New \<and> \<not> Failure_inheritable New
   \<and> ReadSuccess env_example ''redis'' True New =
       ([Lock, Wr F_provider, Unlock, Rd F_Success_inheritable, Wr F_Success_old,
         Wr F_Success_new, Wr F_Success_inheritable, Backend (Os_Open ''cache/history_y''),
         Backend Ioutil_ReadAll, Wr F_Success_old, Rd F_Success_old],
        Inr (ledger_loaded\<lparr>provider := ''redis''\<rparr>))
   \<and> backend_calls (fst (ReadSuccess env_example ''redis'' True New)) =
       [Os_Open ''cache/history_y'', Ioutil_ReadAll]
   \<and> backend_calls (fst (ReadFailure env_example ''redis'' True New)) =
       [Os_Open ''cache/history_n'']
   \<and> snd (ReadFailure env_example ''redis'' True New) =
       Inr (New\<lparr>provider := ''redis'', Failure_inheritable := True\<rparr>)
   \<and> backend_calls (fst (FlushSuccess env_example ''redis'' New)) = [Flush_file ''cache/history_y'']
   \<and> backend_calls (fst (FlushFailure env_example ''redis'' New)) = [Flush_file ''cache/history_n'']"
proof -
  have a: "''redis'' \<noteq> ''mgo''" "''redis'' \<noteq> ''mysql''" by simp_all
  have n: "\<not> Success_inheritable New" "\<not> Failure_inheritable New" by (simp_all add: New_def)
  have r: "ReadSuccess env_example ''file'' True New =
       ([Lock, Wr F_provider, Unlock, Rd F_Success_inheritable, Wr F_Success_old,
         Wr F_Success_new, Wr F_Success_inheritable, Backend (Os_Open ''cache/history_y''),
         Backend Ioutil_ReadAll, Wr F_Success_old, Rd F_Success_old],
        Inr ledger_loaded)"
    by (simp add: ReadSuccess_def ReadSuccess_file_def env_example_def New_def ledger_loaded_def
        success_file_content_def success_file_json_def)
  have e: "SUCCESS_FILE_FULL env_example = ''cache/history_y''"
    "FAILURE_FILE_FULL env_example = ''cache/history_n''"
    "os_Open env_example ''cache/history_y'' = Inr success_file_content"
    "os_Open env_example ''cache/history_n'' = Inl ''no such file''"
    by (simp_all add: env_example_def)
  have l: "Failure_list New = Map.empty" by (simp add: New_def)
  note c = unrecognized_provider_is_file [OF a, of env_example True New]
  from c have 1: "ReadSuccess env_example ''redis'' True New =
      with_provider ''redis'' (ReadSuccess env_example ''file'' True New)"
    by (rule conjunct1)
  from c n(1) have 2: "backend_calls (fst (ReadSuccess env_example ''redis'' True New)) =
           (case os_Open env_example (SUCCESS_FILE_FULL env_example) of
              Inl err \<Rightarrow> [Os_Open (SUCCESS_FILE_FULL env_example)]
            | Inr b \<Rightarrow> [Os_Open (SUCCESS_FILE_FULL env_example), Ioutil_ReadAll])"
    by blast
  from c n(2) have 3: "backend_calls (fst (ReadFailure env_example ''redis'' True New)) =
           (case os_Open env_example (FAILURE_FILE_FULL env_example) of
              Inl err \<Rightarrow> [Os_Open (FAILURE_FILE_FULL env_example)]
            | Inr b \<Rightarrow> [Os_Open (FAILURE_FILE_FULL env_example), Ioutil_ReadAll])"
    by blast
  from c n(2) have 4: "snd (ReadFailure env_example ''redis'' True New) =
           (case os_Open env_example (FAILURE_FILE_FULL env_example) of
              Inl err \<Rightarrow>
                Inr (New\<lparr>provider := ''redis'', Failure_list := Map.empty,
                       Failure_inheritable := True\<rparr>)
            | Inr [] \<Rightarrow> Inl IndexOutOfRange
            | Inr (b0 # bs) \<Rightarrow>
                Inr (New\<lparr>provider := ''redis'', Failure_inheritable := True,
                       Failure_list :=
                         json_Unmarshal_index env_example (CHR ''{'' # bs @ ''}'') Map.empty\<rparr>))"
    by blast
  from c have 5: "backend_calls (fst (FlushSuccess env_example ''redis'' New)) =
      [Flush_file (SUCCESS_FILE_FULL env_example)]"
    "backend_calls (fst (FlushFailure env_example ''redis'' New)) =
      [Flush_file (FAILURE_FILE_FULL env_example)]"
    by blast+
  have 6: "New\<lparr>provider := ''redis'', Failure_list := Map.empty, Failure_inheritable := True\<rparr>
      = New\<lparr>provider := ''redis'', Failure_inheritable := True\<rparr>"
    by (simp add: New_def)
  show ?thesis using a n 1 2 3 4 5 6 r e by (simp add: with_provider_def)
qed

section \<open>Properties of the Collector\<close>

subsection \<open>Runs and their invariants\<close>

lemma exec_append:
  "exec T (as @ bs) s = (case exec T as s of None \<Rightarrow> None | Some s' \<Rightarrow> exec T bs s')"
  by (induction as arbitrary: s) (auto split: option.splits)

lemma exec_snoc:
  "exec T (as @ [a]) s = (case exec T as s of None \<Rightarrow> None | Some s' \<Rightarrow> step T a s')"
  by (simp add: exec_append split: option.splits)

lemma exec_invariant:
  assumes "exec T as s0 = Some s" and "P s0"
    and "\<And>a s s'. P s \<Longrightarrow> step T a s = Some s' \<Longrightarrow> P s'"
  shows "P s"
  using assms(1,2)
proof (induction as arbitrary: s0)
  case Nil
  then show ?case by simp
next
  case (Cons a as)
  then show ?case using assms(3) by (auto split: option.splits)
qed

lemma length_remove_nth: "i < length xs \<Longrightarrow> Suc (length (remove_nth i xs)) = length xs"
  by (auto simp: remove_nth_def)

lemma set_remove_nth: "set (remove_nth i xs) \<subseteq> set xs"
  unfolding remove_nth_def using set_take_subset [of i xs] set_drop_subset [of "Suc i" xs]
  by auto

lemma Init_count: "inv_count (Init T n k)"
  by (simp add: inv_count_def Init_def)

lemma goOutput_fields [simp]:
  "Dockers (goOutput i s) = (Dockers s)[i := []]"
  "Curr (goOutput i s) = Curr s"
  "outputs (goOutput i s) = outputs s @ [Running i (docker_at s i)]"
  "triggered (goOutput i s) = triggered s @ [docker_at s i]"
  "outCount_0 (goOutput i s) = Suc (outCount_0 s)"
  "outCount_1 (goOutput i s) = outCount_1 s"
  "outCount_2 (goOutput i s) = outCount_2 s"
  "outCount_3 (goOutput i s) = outCount_3 s"
  "DataChan (goOutput i s) = DataChan s"
  "FileChan (goOutput i s) = FileChan s"
  "ctrl (goOutput i s) = ctrl s"
  "manage (goOutput i s) = manage s"
  "written (goOutput i s) = written s"
  "sum_1 (goOutput i s) = sum_1 s"
  "ReportChan (goOutput i s) = ReportChan s"
  "SaveFile_started (goOutput i s) = SaveFile_started s"
  "file_outputs (goOutput i s) = file_outputs s"
  "Spider_Name (goOutput i s) = Spider_Name s"
  "Spider_Keyword (goOutput i s) = Spider_Keyword s"
  by (simp_all add: goOutput_def hand_over_def docker_at_def)

lemma Manage_Select_Cons:
  assumes "manage s = M_Select" and "DataChan s = x # rest" and "Curr s < length (Dockers s)"
  shows "Manage T s =
     Some ((if DockerCap T \<le> int (Suc (length (Dockers s ! Curr s)))
            then Change (goOutput (Curr s)
                   (s\<lparr>DataChan := rest,
                      Dockers := (Dockers s)[Curr s := Dockers s ! Curr s @ [x]]\<rparr>))
            else s\<lparr>DataChan := rest,
                   Dockers := (Dockers s)[Curr s := Dockers s ! Curr s @ [x]]\<rparr>)
           \<lparr>manage := M_Loop\<rparr>)"
  using assms by (simp add: Manage_def dockerOne_def Let_def)

lemma Manage_dockers:
  assumes "Manage T s = Some s'" and "inv_dockers s"
  shows "inv_dockers s'"
proof (cases "manage s")
  case M_Select
  show ?thesis
  proof (cases "DataChan s")
    case Nil
    with M_Select assms show ?thesis by (auto simp: Manage_def inv_dockers_def)
  next
    case (Cons x rest)
    have r: "Curr s < length (Dockers s)" using assms(2) by (simp add: inv_dockers_def)
    from assms(1) have "s' = (if DockerCap T \<le> int (Suc (length (Dockers s ! Curr s)))
            then Change (goOutput (Curr s)
                   (s\<lparr>DataChan := rest,
                      Dockers := (Dockers s)[Curr s := Dockers s ! Curr s @ [x]]\<rparr>))
            else s\<lparr>DataChan := rest,
                   Dockers := (Dockers s)[Curr s := Dockers s ! Curr s @ [x]]\<rparr>)
           \<lparr>manage := M_Loop\<rparr>"
      unfolding Manage_Select_Cons [OF M_Select Cons r] by simp
    moreover have "0 < length (Dockers s)" using r by (cases "Dockers s") auto
    ultimately show ?thesis using assms(2)
      by (auto simp: inv_dockers_def Change_def nth_list_update)
  qed
next
  case M_Final
  with assms show ?thesis
    by (auto simp: Manage_def inv_dockers_def nth_list_update)
qed (use assms in \<open>auto simp: Manage_def inv_dockers_def CtrlW_def Report_def split: if_splits\<close>)

lemma step_dockers:
  "step T a s = Some s' \<Longrightarrow> inv_dockers s \<Longrightarrow> inv_dockers s'"
proof (cases a)
  case A_Manage
  then show "step T a s = Some s' \<Longrightarrow> inv_dockers s \<Longrightarrow> inv_dockers s'"
    by (simp add: Manage_dockers)
qed (auto simp: CollectData_def CollectFile_def CtrlR_def SaveFile_def
      output_step_def file_output_step_def Output_def setDataSum_def setFileSum_def
      inv_dockers_def split: if_splits list.splits go_output.splits file_output.splits)

lemma Init_dockers: "0 < DockerQueueCap T \<Longrightarrow> inv_dockers (Init T n k)"
  by (simp add: inv_dockers_def Init_def NewDockerQueue_def)

lemma Manage_cases [consumes 2, case_names CtrlW SaveFile Loop_enter Loop_exit Select_empty
    Select_put Select_full Final Wait_stay Wait_text File_back Wait_file Chan_back Wait_chan
    Report]:
  assumes "Manage T s = Some s'" and "Curr s < length (Dockers s)"
  obtains
    "manage s = M_CtrlW" "ctrl s = []" "s' = s\<lparr>ctrl := [True], manage := M_SaveFile\<rparr>"
  | "manage s = M_SaveFile" "s' = s\<lparr>SaveFile_started := True, manage := M_Loop\<rparr>"
  | "manage s = M_Loop" "ctrl s \<noteq> [] \<or> DataChan s \<noteq> []" "s' = s\<lparr>manage := M_Select\<rparr>"
  | "manage s = M_Loop" "ctrl s = []" "DataChan s = []" "s' = s\<lparr>manage := M_Final\<rparr>"
  | "manage s = M_Select" "DataChan s = []" "s' = s\<lparr>manage := M_Loop\<rparr>"
  | x rest where "manage s = M_Select" "DataChan s = x # rest"
      "\<not> DockerCap T \<le> int (Suc (length (Dockers s ! Curr s)))"
      "s' = s\<lparr>DataChan := rest,
               Dockers := (Dockers s)[Curr s := Dockers s ! Curr s @ [x]],
               manage := M_Loop\<rparr>"
  | x rest where "manage s = M_Select" "DataChan s = x # rest"
      "DockerCap T \<le> int (Suc (length (Dockers s ! Curr s)))"
      "s' = s\<lparr>DataChan := rest,
               outCount_0 := Suc (outCount_0 s),
               outputs := outputs s @ [Running (Curr s) (Dockers s ! Curr s @ [x])],
               triggered := triggered s @ [Dockers s ! Curr s @ [x]],
               Dockers := (Dockers s)[Curr s := []],
               Curr := Suc (Curr s) mod length (Dockers s),
               manage := M_Loop\<rparr>"
  | "manage s = M_Final"
      "s' = s\<lparr>outCount_0 := Suc (outCount_0 s),
               outputs := outputs s @ [Running (Curr s) (Dockers s ! Curr s)],
               triggered := triggered s @ [Dockers s ! Curr s],
               Dockers := (Dockers s)[Curr s := []],
               manage := M_Wait\<rparr>"
  | "manage s = M_Wait" "outCount_1 s < outCount_0 s" "s' = s"
  | "manage s = M_Wait" "outCount_0 s \<le> outCount_1 s" "s' = s\<lparr>manage := M_Wait_file\<rparr>"
  | "manage s = M_Wait_file" "outCount_3 s < outCount_2 s" "s' = s\<lparr>manage := M_Wait\<rparr>"
  | "manage s = M_Wait_file" "outCount_2 s \<le> outCount_3 s"
      "s' = s\<lparr>manage := M_Wait_chan\<rparr>"
  | "manage s = M_Wait_chan" "FileChan s \<noteq> []" "s' = s\<lparr>manage := M_Wait\<rparr>"
  | "manage s = M_Wait_chan" "FileChan s = []" "s' = s\<lparr>manage := M_Report\<rparr>"
  | "manage s = M_Report"
      "s' = s\<lparr>ReportChan := ReportChan s @
                 [\<lparr>SpiderName = Spider_Name s, Keyword = Spider_Keyword s,
                   DataNum = sum_1 s, FileNum = sum_2 s\<rparr>],
               manage := M_Done\<rparr>"
proof (cases "manage s")
  case M_CtrlW
  with assms(1) have "ctrl s = []" "s' = s\<lparr>ctrl := [True], manage := M_SaveFile\<rparr>"
    by (cases "ctrl s"; auto simp: Manage_def CtrlW_def)+
  with that(1) M_CtrlW show ?thesis by blast
next
  case M_SaveFile
  with assms(1) have "s' = s\<lparr>SaveFile_started := True, manage := M_Loop\<rparr>"
    by (auto simp: Manage_def)
  with that(2) M_SaveFile show ?thesis by blast
next
  case M_Loop
  show ?thesis
  proof (cases "ctrl s = [] \<and> DataChan s = []")
    case True
    with assms(1) M_Loop have "s' = s\<lparr>manage := M_Final\<rparr>"
      by (auto simp: Manage_def CtrlLen_def)
    with that(4) M_Loop True show ?thesis by blast
  next
    case False
    with assms(1) M_Loop have "s' = s\<lparr>manage := M_Select\<rparr>"
      by (auto simp: Manage_def CtrlLen_def)
    with that(3) M_Loop False show ?thesis by blast
  qed
next
  case M_Select
  show ?thesis
  proof (cases "DataChan s")
    case Nil
    with assms(1) M_Select have "s' = s\<lparr>manage := M_Loop\<rparr>"
      by (auto simp: Manage_def)
    with that(5) M_Select Nil show ?thesis by blast
  next
    case (Cons x rest)
    show ?thesis
    proof (cases "DockerCap T \<le> int (Suc (length (Dockers s ! Curr s)))")
      case True
      with assms(1) have "s' = s\<lparr>DataChan := rest,
               outCount_0 := Suc (outCount_0 s),
               outputs := outputs s @ [Running (Curr s) (Dockers s ! Curr s @ [x])],
               triggered := triggered s @ [Dockers s ! Curr s @ [x]],
               Dockers := (Dockers s)[Curr s := []],
               Curr := Suc (Curr s) mod length (Dockers s),
               manage := M_Loop\<rparr>"
        unfolding Manage_Select_Cons [OF M_Select Cons assms(2)]
        using assms(2)
        by (auto simp: Change_def goOutput_def hand_over_def docker_at_def)
      with that(7) M_Select Cons True show ?thesis by blast
    next
      case False
      with assms(1) have "s' = s\<lparr>DataChan := rest,
               Dockers := (Dockers s)[Curr s := Dockers s ! Curr s @ [x]],
               manage := M_Loop\<rparr>"
        unfolding Manage_Select_Cons [OF M_Select Cons assms(2)] by simp
      with that(6) M_Select Cons False show ?thesis by blast
    qed
  qed
next
  case M_Final
  with assms have "s' = s\<lparr>outCount_0 := Suc (outCount_0 s),
               outputs := outputs s @ [Running (Curr s) (Dockers s ! Curr s)],
               triggered := triggered s @ [Dockers s ! Curr s],
               Dockers := (Dockers s)[Curr s := []],
               manage := M_Wait\<rparr>"
    by (auto simp: Manage_def goOutput_def hand_over_def docker_at_def)
  with that(8) M_Final show ?thesis by blast
next
  case M_Wait
  show ?thesis
  proof (cases "outCount_1 s < outCount_0 s")
    case True
    with assms(1) M_Wait have "s' = s" by (simp add: Manage_def)
    with that(9) M_Wait True show ?thesis by blast
  next
    case False
    with assms(1) M_Wait have "s' = s\<lparr>manage := M_Wait_file\<rparr>"
      by (auto simp: Manage_def)
    moreover from False have "outCount_0 s \<le> outCount_1 s" by simp
    ultimately show ?thesis using that(10) M_Wait by blast
  qed
next
  case M_Wait_file
  show ?thesis
  proof (cases "outCount_3 s < outCount_2 s")
    case True
    with assms(1) M_Wait_file have "s' = s\<lparr>manage := M_Wait\<rparr>" by (simp add: Manage_def)
    with that(11) M_Wait_file True show ?thesis by blast
  next
    case False
    with assms(1) M_Wait_file have "s' = s\<lparr>manage := M_Wait_chan\<rparr>"
      by (auto simp: Manage_def)
    moreover from False have "outCount_2 s \<le> outCount_3 s" by simp
    ultimately show ?thesis using that(12) M_Wait_file by blast
  qed
next
  case M_Wait_chan
  show ?thesis
  proof (cases "FileChan s = []")
    case True
    with assms(1) M_Wait_chan have "s' = s\<lparr>manage := M_Report\<rparr>" by (simp add: Manage_def)
    with that(14) M_Wait_chan True show ?thesis by blast
  next
    case False
    with assms(1) M_Wait_chan have "s' = s\<lparr>manage := M_Wait\<rparr>"
      by (auto simp: Manage_def)
    with that(13) M_Wait_chan False show ?thesis by blast
  qed
next
  case M_Report
  with assms(1) have "s' = s\<lparr>ReportChan := ReportChan s @
                 [\<lparr>SpiderName = Spider_Name s, Keyword = Spider_Keyword s,
                   DataNum = sum_1 s, FileNum = sum_2 s\<rparr>],
               manage := M_Done\<rparr>"
    by (auto simp: Manage_def Report_def dataSum_def fileSum_def)
  with that(15) M_Report show ?thesis by blast
next
  case M_Done
  with assms show ?thesis by (simp add: Manage_def)
next
  case M_Panic
  with assms show ?thesis by (simp add: Manage_def)
qed

lemma output_step_cases [consumes 1, case_names Run Load Store]:
  assumes "output_step i s = Some s'"
  obtains
    k b where "i < length (outputs s)" "outputs s ! i = Running k b"
      "s' = s\<lparr>written := written s @ [b], sum_0 := sum_1 s,
               sum_1 := sum_1 s + word_of_nat (length b),
               outputs := (outputs s)[i := Counting]\<rparr>"
  | "i < length (outputs s)" "outputs s ! i = Counting"
      "s' = s\<lparr>outputs := (outputs s)[i := Storing (outCount_1 s)]\<rparr>"
  | v where "i < length (outputs s)" "outputs s ! i = Storing v"
      "s' = s\<lparr>outCount_1 := Suc v, outputs := remove_nth i (outputs s)\<rparr>"
proof -
  from assms have l: "i < length (outputs s)"
    by (simp add: output_step_def split: if_splits)
  show ?thesis
  proof (cases "outputs s ! i")
    case (Running k b)
    with assms l have "s' = s\<lparr>written := written s @ [b], sum_0 := sum_1 s,
               sum_1 := sum_1 s + word_of_nat (length b),
               outputs := (outputs s)[i := Counting]\<rparr>"
      by (simp add: output_step_def Output_def setDataSum_def)
    with that(1) l Running show ?thesis by blast
  next
    case Counting
    with assms l have "s' = s\<lparr>outputs := (outputs s)[i := Storing (outCount_1 s)]\<rparr>"
      by (simp add: output_step_def)
    with that(2) l Counting show ?thesis by blast
  next
    case (Storing v)
    with assms l have "s' = s\<lparr>outCount_1 := Suc v, outputs := remove_nth i (outputs s)\<rparr>"
      by (simp add: output_step_def)
    with that(3) l Storing show ?thesis by blast
  qed
qed

lemma step_cases [consumes 1, case_names CollectData CollectFile CtrlR SaveFile FileStart
    FileEnd Manage Output]:
  assumes "step T a s = Some s'"
  obtains
    x where "a = A_CollectData x" "length (DataChan s) < DATA_CAP T"
      "s' = s\<lparr>DataChan := DataChan s @ [x]\<rparr>"
  | f where "a = A_CollectFile f" "s' = s\<lparr>FileChan := FileChan s @ [f]\<rparr>"
  | b bs where "a = A_CtrlR" "ctrl s = b # bs" "s' = s\<lparr>ctrl := bs\<rparr>"
  | f rest where "a = A_SaveFile" "SaveFile_started s" "FileChan s = f # rest"
      "s' = s\<lparr>FileChan := rest, file_outputs := file_outputs s @ [Received f]\<rparr>"
  | i f where "a = A_FileOutput i" "i < length (file_outputs s)"
      "file_outputs s ! i = Received f"
      "s' = s\<lparr>outCount_2 := Suc (outCount_2 s),
               file_outputs := (file_outputs s)[i := Saving f]\<rparr>"
  | i f where "a = A_FileOutput i" "i < length (file_outputs s)"
      "file_outputs s ! i = Saving f"
      "s' = s\<lparr>sum_2 := sum_2 s + 1, outCount_3 := Suc (outCount_3 s),
               file_outputs := remove_nth i (file_outputs s)\<rparr>"
  | "a = A_Manage" "Manage T s = Some s'"
  | i where "a = A_Output i" "output_step i s = Some s'"
proof (cases a)
  case (A_CollectData x)
  with assms have "length (DataChan s) < DATA_CAP T" "s' = s\<lparr>DataChan := DataChan s @ [x]\<rparr>"
    by (auto simp: CollectData_def split: if_splits)
  with that(1) A_CollectData show ?thesis by blast
next
  case (A_CollectFile f)
  with assms have "s' = s\<lparr>FileChan := FileChan s @ [f]\<rparr>"
    by (auto simp: CollectFile_def split: if_splits)
  with that(2) A_CollectFile show ?thesis by blast
next
  case A_CtrlR
  with assms obtain b bs where "ctrl s = b # bs" "s' = s\<lparr>ctrl := bs\<rparr>"
    by (cases "ctrl s") (auto simp: CtrlR_def)
  with that(3) A_CtrlR show ?thesis by blast
next
  case A_Manage
  with assms that(7) show ?thesis by simp
next
  case (A_Output i)
  with assms that(8) show ?thesis by simp
next
  case A_SaveFile
  with assms obtain f rest where "SaveFile_started s" "FileChan s = f # rest"
      "s' = s\<lparr>FileChan := rest, file_outputs := file_outputs s @ [Received f]\<rparr>"
    by (cases "FileChan s") (auto simp: SaveFile_def split: if_splits)
  with that(4) A_SaveFile show ?thesis by blast
next
  case (A_FileOutput i)
  with assms have l: "i < length (file_outputs s)"
    by (auto simp: file_output_step_def split: if_splits)
  show ?thesis
  proof (cases "file_outputs s ! i")
    case (Received f)
    with assms A_FileOutput l have "s' = s\<lparr>outCount_2 := Suc (outCount_2 s),
               file_outputs := (file_outputs s)[i := Saving f]\<rparr>"
      by (auto simp: file_output_step_def)
    with that(5) A_FileOutput l Received show ?thesis by blast
  next
    case (Saving f)
    with assms A_FileOutput l have "s' = s\<lparr>sum_2 := sum_2 s + 1,
               outCount_3 := Suc (outCount_3 s),
               file_outputs := remove_nth i (file_outputs s)\<rparr>"
      by (auto simp: file_output_step_def setFileSum_def)
    with that(6) A_FileOutput l Saving show ?thesis by blast
  qed
qed

lemma Manage_count:
  assumes "Manage T s = Some s'" and "inv_dockers s" and "inv_count s"
  shows "inv_count s'"
proof -
  have r: "Curr s < length (Dockers s)" using assms(2) by (simp add: inv_dockers_def)
  from assms(1) r show ?thesis
    by (cases rule: Manage_cases) (use assms(3) in \<open>auto simp: inv_count_def\<close>)
qed

lemma output_step_count:
  assumes "output_step i s = Some s'" and "inv_count s"
  shows "inv_count s'"
  using assms(1)
proof (cases rule: output_step_cases)
  case (Run k b)
  have "set ((outputs s)[i := Counting]) \<subseteq> insert Counting (set (outputs s))"
    by (rule set_update_subset_insert)
  with Run assms(2) show ?thesis by (auto simp: inv_count_def)
next
  case Load
  have "set ((outputs s)[i := Storing (outCount_1 s)])
      \<subseteq> insert (Storing (outCount_1 s)) (set (outputs s))"
    by (rule set_update_subset_insert)
  with Load assms(2) show ?thesis by (auto simp: inv_count_def)
next
  case (Store v)
  from Store(1,2) have m: "Storing v \<in> set (outputs s)" by (metis nth_mem)
  from length_remove_nth [OF Store(1)]
  have l: "Suc (length (remove_nth i (outputs s))) = length (outputs s)" .
  from assms(2) m have a: "v + length (outputs s) \<le> outCount_0 s"
    by (simp add: inv_count_def)
  have b: "w + length (remove_nth i (outputs s)) \<le> outCount_0 s"
    if "Storing w \<in> set (remove_nth i (outputs s))" for w
  proof -
    from that set_remove_nth [of i "outputs s"] have "Storing w \<in> set (outputs s)" by blast
    with assms(2) have "w + length (outputs s) \<le> outCount_0 s" by (simp add: inv_count_def)
    with l show ?thesis by simp
  qed
  from Store(3) a b l show ?thesis by (simp add: inv_count_def)
qed

lemma step_count:
  assumes "step T a s = Some s'" and "inv_dockers s" and "inv_count s"
  shows "inv_count s'"
  using assms(1)
proof (cases rule: step_cases)
  case Manage
  then show ?thesis using assms(2,3) by (simp add: Manage_count)
next
  case (Output i)
  then show ?thesis using assms(3) by (simp add: output_step_count)
qed (use assms(3) in \<open>simp_all add: inv_count_def\<close>)

lemma Manage_misc:
  assumes "Manage T s = Some s'" and "inv_dockers s" and "inv_count s" and "inv_misc s"
  shows "inv_misc s'"
proof -
  have r: "Curr s < length (Dockers s)" using assms(2) by (simp add: inv_dockers_def)
  from assms(1) r show ?thesis
  proof (cases rule: Manage_cases)
    case Wait_text
    from assms(3) have "outCount_1 s + length (outputs s) \<le> outCount_0 s"
      by (simp add: inv_count_def)
    with Wait_text(2) have "length (outputs s) = 0" by linarith
    then have "outputs s = []" by simp
    with Wait_text assms(4) show ?thesis by (simp add: inv_misc_def)
  qed (use assms(4) in \<open>auto simp: inv_misc_def\<close>)
qed

lemma output_step_misc:
  assumes "output_step i s = Some s'" and "inv_misc s"
  shows "inv_misc s'"
  using assms
proof (cases rule: output_step_cases)
  case (Run k b)
  then have "manage s' = manage s" "ctrl s' = ctrl s" "SaveFile_started s' = SaveFile_started s"
    "ReportChan s' = ReportChan s" "outCount_0 s' = outCount_0 s" "triggered s' = triggered s"
    "outputs s \<noteq> []"
    by auto
  with assms(2) show ?thesis unfolding inv_misc_def by auto
next
  case Load
  then have "manage s' = manage s" "ctrl s' = ctrl s" "SaveFile_started s' = SaveFile_started s"
    "ReportChan s' = ReportChan s" "outCount_0 s' = outCount_0 s" "triggered s' = triggered s"
    "outputs s \<noteq> []"
    by auto
  with assms(2) show ?thesis unfolding inv_misc_def by auto
next
  case (Store v)
  then have "manage s' = manage s" "ctrl s' = ctrl s" "SaveFile_started s' = SaveFile_started s"
    "ReportChan s' = ReportChan s" "outCount_0 s' = outCount_0 s" "triggered s' = triggered s"
    "outputs s \<noteq> []"
    by auto
  with assms(2) show ?thesis unfolding inv_misc_def by auto
qed

lemma step_misc:
  assumes "step T a s = Some s'" and "inv_dockers s" and "inv_count s" and "inv_misc s"
  shows "inv_misc s'"
  using assms(1)
proof (cases rule: step_cases)
  case (CollectData x)
  with assms(4) show ?thesis by (simp add: inv_misc_def)
next
  case (CollectFile f)
  with assms(4) show ?thesis by (simp add: inv_misc_def)
next
  case (CtrlR b bs)
  with assms(4) show ?thesis by (simp add: inv_misc_def)
next
  case (SaveFile f rest)
  with assms(4) show ?thesis by (simp add: inv_misc_def)
next
  case (FileStart i f)
  with assms(4) show ?thesis by (simp add: inv_misc_def)
next
  case (FileEnd i f)
  with assms(4) show ?thesis by (simp add: inv_misc_def)
next
  case Manage
  then show ?thesis using assms(2,3,4) by (simp add: Manage_misc)
next
  case (Output i)
  then show ?thesis using assms(4) by (simp add: output_step_misc)
qed

lemma Init_misc: "inv_misc (Init T n k)"
  by (simp add: inv_misc_def Init_def)

lemma step_all:
  assumes "step T a s = Some s'" and "inv_all s"
  shows "inv_all s'"
proof -
  from assms(2) have d: "inv_dockers s" and c: "inv_count s" and m: "inv_misc s"
    by (simp_all add: inv_all_def)
  from step_dockers [OF assms(1) d] step_count [OF assms(1) d c] step_misc [OF assms(1) d c m]
  show ?thesis by (simp add: inv_all_def)
qed

lemma Init_all: "0 < DockerQueueCap T \<Longrightarrow> inv_all (Init T n k)"
  by (simp add: inv_all_def Init_dockers Init_count Init_misc)

lemma exec_all:
  assumes "exec T as s = Some s'" and "inv_all s"
  shows "inv_all s'"
proof (rule exec_invariant [where P = inv_all])
  show "exec T as s = Some s'" by fact
  show "inv_all s" by fact
  show "\<And>a s s'. inv_all s \<Longrightarrow> step T a s = Some s' \<Longrightarrow> inv_all s'"
    by (rule step_all)
qed

lemma batch_size_pos: "0 < batch_size T"
  by (simp add: batch_size_def)

lemma next_slot_empty:
  assumes "inv_dockers s"
  shows "(Dockers s)[Curr s := []] ! (Suc (Curr s) mod length (Dockers s)) = []"
proof -
  from assms have r: "Curr s < length (Dockers s)" by (simp add: inv_dockers_def)
  then have "0 < length (Dockers s)" by (cases "Dockers s") auto
  then have "Suc (Curr s) mod length (Dockers s) < length (Dockers s)" by simp
  with assms r show ?thesis by (auto simp: inv_dockers_def nth_list_update)
qed

lemma Manage_batches:
  assumes "Manage T s = Some s'" and "inv_dockers s" and "inv_batches T s"
  shows "inv_batches T s'"
proof -
  have r: "Curr s < length (Dockers s)" using assms(2) by (simp add: inv_dockers_def)
  from assms(1) r show ?thesis
  proof (cases rule: Manage_cases)
    case (Select_put x rest)
    with assms(3) r show ?thesis
      by (auto simp: inv_batches_def final_done_def batch_size_def)
  next
    case (Select_full x rest)
    from Select_full(1) assms(3)
    have a: "list_all (\<lambda>b. length b = batch_size T) (triggered s)"
      and b: "length (Dockers s ! Curr s) < batch_size T"
      by (simp_all add: inv_batches_def final_done_def)
    from b Select_full(3) have "Suc (length (Dockers s ! Curr s)) = batch_size T"
      by (auto simp: batch_size_def)
    with a Select_full next_slot_empty [OF assms(2)] batch_size_pos [of T] show ?thesis
      by (simp add: inv_batches_def final_done_def)
  next
    case Final
    with assms(3) r show ?thesis
      by (simp add: inv_batches_def final_done_def)
  qed (use assms(3) in \<open>simp_all add: inv_batches_def final_done_def\<close>)
qed

lemma output_step_frame:
  assumes "output_step i s = Some s'"
  shows "manage s' = manage s" "triggered s' = triggered s" "Dockers s' = Dockers s"
    "Curr s' = Curr s" "DataChan s' = DataChan s" "FileChan s' = FileChan s"
    "ctrl s' = ctrl s" "outCount_0 s' = outCount_0 s" "outCount_2 s' = outCount_2 s"
    "outCount_3 s' = outCount_3 s" "file_outputs s' = file_outputs s"
    "ReportChan s' = ReportChan s" "SaveFile_started s' = SaveFile_started s"
  using assms by (cases rule: output_step_cases; simp)+

lemma step_batches:
  assumes "step T a s = Some s'" and "inv_dockers s" and "inv_batches T s"
  shows "inv_batches T s'"
  using assms(1)
proof (cases rule: step_cases)
  case Manage
  then show ?thesis using assms(2,3) by (simp add: Manage_batches)
next
  case (Output i)
  with assms(3) output_step_frame [OF Output(2)] show ?thesis
    by (simp add: inv_batches_def final_done_def)
qed (use assms(3) in \<open>simp_all add: inv_batches_def final_done_def\<close>)

lemma Init_batches: "0 < DockerQueueCap T \<Longrightarrow> inv_batches T (Init T n k)"
  by (simp add: inv_batches_def final_done_def Init_def NewDockerQueue_def batch_size_pos)

lemma submitted_append: "submitted (as @ bs) = submitted as @ submitted bs"
  by (induction as rule: submitted.induct) simp_all

lemma step_items:
  assumes "step T a s = Some s'" and "inv_dockers s"
  shows "concat (triggered s') @ Dockers s' ! Curr s' @ DataChan s' =
         concat (triggered s) @ Dockers s ! Curr s @ DataChan s @ submitted [a]"
  using assms(1)
proof (cases rule: step_cases)
  case Manage
  have r: "Curr s < length (Dockers s)" using assms(2) by (simp add: inv_dockers_def)
  from Manage(2) r show ?thesis
  proof (cases rule: Manage_cases)
    case (Select_put x rest)
    with r Manage(1) show ?thesis by simp
  next
    case (Select_full x rest)
    with Manage(1) next_slot_empty [OF assms(2)] show ?thesis by simp
  next
    case Final
    with r Manage(1) show ?thesis by simp
  qed (use Manage(1) in simp_all)
next
  case (Output i)
  with output_step_frame [OF Output(2)] show ?thesis by simp
qed simp_all

lemma pending_append: "pending (os @ ps) = pending os @ pending ps"
  by (induction os rule: pending.induct) simp_all

lemma pending_run:
  "i < length os \<Longrightarrow> os ! i = Running k b \<Longrightarrow>
   mset (pending os) = add_mset b (mset (pending (os[i := Counting])))"
proof (induction os arbitrary: i rule: pending.induct)
  case 1
  then show ?case by simp
next
  case (2 j c os)
  then show ?case by (cases i) auto
next
  case (3 os)
  then show ?case by (cases i) auto
next
  case (4 v os)
  then show ?case by (cases i) auto
qed

lemma pending_load:
  "i < length os \<Longrightarrow> os ! i = Counting \<Longrightarrow> pending (os[i := Storing v]) = pending os"
proof (induction os arbitrary: i rule: pending.induct)
  case 1
  then show ?case by simp
next
  case (2 j c os)
  then show ?case by (cases i) auto
next
  case (3 os)
  then show ?case by (cases i) auto
next
  case (4 w os)
  then show ?case by (cases i) auto
qed

lemma pending_store:
  "i < length os \<Longrightarrow> os ! i = Storing v \<Longrightarrow> pending (remove_nth i os) = pending os"
proof (induction os arbitrary: i rule: pending.induct)
  case 1
  then show ?case by simp
next
  case (2 j c os)
  then show ?case by (cases i) (auto simp: remove_nth_def)
next
  case (3 os)
  then show ?case by (cases i) (auto simp: remove_nth_def)
next
  case (4 w os)
  then show ?case by (cases i) (auto simp: remove_nth_def)
qed

lemma Manage_written:
  assumes "Manage T s = Some s'" and "inv_dockers s" and "inv_written s"
  shows "inv_written s'"
proof -
  have r: "Curr s < length (Dockers s)" using assms(2) by (simp add: inv_dockers_def)
  from assms(1) r show ?thesis
    by (cases rule: Manage_cases)
       (use assms(3) in \<open>simp_all add: inv_written_def pending_append\<close>)
qed

lemma output_step_written:
  assumes "output_step i s = Some s'" and "inv_written s"
  shows "inv_written s'"
  using assms(1)
proof (cases rule: output_step_cases)
  case (Run k b)
  with assms(2) pending_run [OF Run(1,2)] show ?thesis
    by (simp add: inv_written_def)
next
  case Load
  with assms(2) pending_load [OF Load(1,2)] show ?thesis
    by (simp add: inv_written_def)
next
  case (Store v)
  with assms(2) pending_store [OF Store(1,2)] show ?thesis
    by (simp add: inv_written_def)
qed

lemma step_written:
  assumes "step T a s = Some s'" and "inv_dockers s" and "inv_written s"
  shows "inv_written s'"
  using assms(1)
proof (cases rule: step_cases)
  case Manage
  then show ?thesis using assms(2,3) by (simp add: Manage_written)
next
  case (Output i)
  then show ?thesis using assms(3) by (simp add: output_step_written)
qed (use assms(3) in \<open>simp_all add: inv_written_def\<close>)

lemma Init_written: "inv_written (Init T n k)"
  by (simp add: inv_written_def Init_def)

lemma step_run:
  assumes "step T a s = Some s'" and "inv_run T s"
  shows "inv_run T s'"
proof -
  from assms(2) have a: "inv_all s" and b: "inv_batches T s" and w: "inv_written s"
    by (simp_all add: inv_run_def)
  from a have d: "inv_dockers s" by (simp add: inv_all_def)
  from step_all [OF assms(1) a] step_batches [OF assms(1) d b] step_written [OF assms(1) d w]
  show ?thesis by (simp add: inv_run_def)
qed

lemma Init_run: "0 < DockerQueueCap T \<Longrightarrow> inv_run T (Init T n k)"
  by (simp add: inv_run_def Init_all Init_batches Init_written)

lemma exec_run:
  assumes "exec T as s = Some s'" and "inv_run T s"
  shows "inv_run T s'"
proof (rule exec_invariant [where P = "inv_run T"])
  show "exec T as s = Some s'" by fact
  show "inv_run T s" by fact
  show "\<And>a s s'. inv_run T s \<Longrightarrow> step T a s = Some s' \<Longrightarrow> inv_run T s'"
    by (rule step_run)
qed

lemma reachable_run:
  "exec T as (Init T n k) = Some s \<Longrightarrow> 0 < DockerQueueCap T \<Longrightarrow> inv_run T s"
  by (erule exec_run) (rule Init_run)

text \<open>The items submitted are the batches triggered, the current docker and the queue.\<close>

lemma reachable_items:
  assumes "exec T as (Init T n k) = Some s" and "0 < DockerQueueCap T"
  shows "submitted as = concat (triggered s) @ Dockers s ! Curr s @ DataChan s"
  using assms(1)
proof (induction as arbitrary: s rule: rev_induct)
  case Nil
  then show ?case using assms(2) by (auto simp: Init_def NewDockerQueue_def)
next
  case (snoc a as)
  from snoc.prems obtain s1 where e: "exec T as (Init T n k) = Some s1"
    and st: "step T a s1 = Some s"
    by (auto simp: exec_snoc split: option.splits)
  from reachable_run [OF e assms(2)] have d: "inv_dockers s1"
    by (simp add: inv_run_def inv_all_def)
  from snoc.IH [OF e] step_items [OF st d] show ?case
    by (simp add: submitted_append)
qed

subsection \<open>Sizes of the batches\<close>

lemma full_batches_length:
  "list_all (\<lambda>b. length b = c) bs \<Longrightarrow> length (concat bs) = length bs * c"
  by (induction bs) simp_all

lemma full_batches_sizes:
  "list_all (\<lambda>b. length b = c) bs \<Longrightarrow> map length bs = replicate (length bs) c"
  by (induction bs) simp_all

lemma batches_sizes:
  assumes "bs \<noteq> []" and "list_all (\<lambda>b. length b = c) (butlast bs)"
    and "length (last bs) < c"
  shows "map length bs =
     replicate (length (concat bs) div c) c @ [length (concat bs) mod c]"
proof -
  from assms(1) have bs: "bs = butlast bs @ [last bs]" by simp
  let ?k = "length (butlast bs)" and ?r = "length (last bs)"
  have "length (concat bs) = length (concat (butlast bs)) + ?r"
    by (subst bs) simp
  with full_batches_length [OF assms(2)] have n: "length (concat bs) = ?k * c + ?r" by simp
  from n assms(3) have d: "length (concat bs) div c = ?k" by simp
  from n assms(3) have m: "length (concat bs) mod c = ?r" by simp
  have "map length bs = map length (butlast bs) @ [?r]" by (subst bs) simp
  with full_batches_sizes [OF assms(2)] d m show ?thesis by simp
qed


lemma final_sizes:
  assumes "inv_batches T s" and "final_done s"
  shows "map length (triggered s) =
     replicate (length (concat (triggered s)) div batch_size T) (batch_size T)
       @ [length (concat (triggered s)) mod batch_size T]"
  using assms by (intro batches_sizes) (simp_all add: inv_batches_def)

lemma length_concat_mset: "length (concat xss) = sum_mset (image_mset length (mset xss))"
  by (induction xss) simp_all

lemma written_when_done:
  assumes "inv_run T s" and "manage s = M_Done"
  shows "mset (written s) = mset (triggered s)"
    and "map DataNum (ReportChan s) = [word_of_nat (length (concat (triggered s)))]"
proof -
  from assms have o: "outputs s = []" and r: "map DataNum (ReportChan s) = [sum_1 s]"
    by (simp_all add: inv_run_def inv_all_def inv_misc_def)
  from assms(1) o show w: "mset (written s) = mset (triggered s)"
    by (simp add: inv_run_def inv_written_def)
  have "length (concat (written s)) = length (concat (triggered s))"
    using w by (simp add: length_concat_mset)
  with assms(1) r show "map DataNum (ReportChan s) = [word_of_nat (length (concat (triggered s)))]"
    by (simp add: inv_run_def inv_written_def)
qed

lemma reachable_final:
  assumes "exec T as (Init T n k) = Some s" and "0 < DockerQueueCap T" and "final_done s"
  shows "submitted as = concat (triggered s) @ DataChan s"
    and "triggered s \<noteq> []"
    and "outCount_0 s = length (triggered s)"
    and "length (last (triggered s)) < batch_size T"
    and "map length (triggered s) =
       replicate (length (concat (triggered s)) div batch_size T) (batch_size T)
         @ [length (concat (triggered s)) mod batch_size T]"
proof -
  note r = reachable_run [OF assms(1,2)]
  then have b: "inv_batches T s" and m: "inv_misc s" by (simp_all add: inv_run_def inv_all_def)
  from b assms(3) have e: "Dockers s ! Curr s = []" by (simp add: inv_batches_def)
  with reachable_items [OF assms(1,2)] show "submitted as = concat (triggered s) @ DataChan s"
    by simp
  from b assms(3) show "triggered s \<noteq> []" "length (last (triggered s)) < batch_size T"
    by (simp_all add: inv_batches_def)
  from m show "outCount_0 s = length (triggered s)" by (simp add: inv_misc_def)
  from final_sizes [OF b assms(3)] show "map length (triggered s) =
       replicate (length (concat (triggered s)) div batch_size T) (batch_size T)
         @ [length (concat (triggered s)) mod batch_size T]" .
qed




text \<open>
  C10: once the final \<^verbatim>\<open>goOutput\<close> has been executed, at least one text output has
  been triggered; the last batch triggered is what the current docker held, that is the
  items taken from the queue modulo the batch size, whether empty or not; and when no
  item is left in the queue and the number of submitted items is zero or a multiple of
  the capacity, that last batch is empty.
\<close>

theorem final_output_always_triggered:
  assumes "exec T as (Init T n k) = Some s" and "0 < DockerQueueCap T" and "final_done s"
  shows "triggered s \<noteq> [] \<and> 1 \<le> outCount_0 s \<and> outCount_0 s = length (triggered s)
    \<and> submitted as = concat (triggered s) @ DataChan s
    \<and> length (last (triggered s)) = length (concat (triggered s)) mod batch_size T
    \<and> (DataChan s = [] \<and> 1 \<le> DockerCap T \<and> int (length (submitted as)) mod DockerCap T = 0
          \<longrightarrow> last (triggered s) = [] \<and> [] \<in> set (triggered s))"
proof -
  note fin = reachable_final [OF assms]
  from fin(2,3) have one: "1 \<le> outCount_0 s" by (cases "triggered s") simp_all
  have "last (map length (triggered s)) = length (concat (triggered s)) mod batch_size T"
    by (subst fin(5)) simp
  with fin(2) have l: "length (last (triggered s)) = length (concat (triggered s)) mod batch_size T"
    by (simp add: last_map)
  have e: "last (triggered s) = [] \<and> [] \<in> set (triggered s)"
    if "DataChan s = []" and "1 \<le> DockerCap T"
      and "int (length (submitted as)) mod DockerCap T = 0"
  proof -
    from that(2) have c: "int (batch_size T) = DockerCap T" by (simp add: batch_size_def)
    from that(1) fin(1) have "length (concat (triggered s)) = length (submitted as)" by simp
    with that(3) c have "int (length (concat (triggered s)) mod batch_size T) = 0"
      by (simp add: zmod_int)
    with l have "last (triggered s) = []" by simp
    with fin(2) show ?thesis using last_in_set by metis
  qed
  from fin(1,2,3) one l e show ?thesis by auto
qed

theorem final_output_always_triggered_witness:
  "exec task_cap3 (run_of [11, 12, 13, 14, 15, 16] 3) (Init task_cap3 ''spider'' ''key'') =
       Some (final_state task_cap3 (run_of [11, 12, 13, 14, 15, 16] 3))
   \<and> final_done (final_state task_cap3 (run_of [11, 12, 13, 14, 15, 16] 3))
   \<and> outCount_0 (final_state task_cap3 (run_of [11, 12, 13, 14, 15, 16] 3)) = 3
   \<and> last (triggered (final_state task_cap3 (run_of [11, 12, 13, 14, 15, 16] 3))) = []"
proof -
  let ?r = "run_of [11, 12, 13, 14, 15, 16] 3"
  have e: "exec task_cap3 ?r (Init task_cap3 ''spider'' ''key'') =
      Some (final_state task_cap3 ?r)"
    by code_simp
  have q: "0 < DockerQueueCap task_cap3" by (simp add: task_cap3_def)
  have f: "final_done (final_state task_cap3 ?r)" by code_simp
  have d: "DataChan (final_state task_cap3 ?r) = []" by code_simp
  have c: "1 \<le> DockerCap task_cap3" "int (length (submitted ?r)) mod DockerCap task_cap3 = 0"
    by code_simp+
  have o: "outCount_0 (final_state task_cap3 ?r) = 3" by code_simp
  from final_output_always_triggered [OF e q f] d c have "last (triggered (final_state task_cap3 ?r)) = []" by blast
  with e f o show ?thesis by simp
qed

subsection \<open>The exit of the fill/drain loop\<close>

lemma step_after_exit:
  assumes "step T a s = Some s'" and "inv_dockers s" and "loop_exited s"
  shows "loop_exited s'" and "DataChan s' = DataChan s @ submitted [a]"
proof -
  have r: "Curr s < length (Dockers s)" using assms(2) by (simp add: inv_dockers_def)
  have "loop_exited s' \<and> DataChan s' = DataChan s @ submitted [a]"
    using assms(1)
  proof (cases rule: step_cases)
    case Manage
    from Manage(2) r show ?thesis
      by (cases rule: Manage_cases)
         (use assms(3) Manage(1) in \<open>simp_all add: loop_exited_def final_done_def\<close>)
  next
    case (Output i)
    with output_step_frame [OF Output(2)] assms(3) show ?thesis
      by (simp add: loop_exited_def final_done_def)
  qed (use assms(3) in \<open>simp_all add: loop_exited_def final_done_def\<close>)
  then show "loop_exited s'" and "DataChan s' = DataChan s @ submitted [a]" by simp_all
qed

lemma step_exit:
  assumes "step T a s = Some s'" and "inv_dockers s" and "\<not> loop_exited s" and "loop_exited s'"
  shows "a = A_Manage \<and> manage s = M_Loop \<and> ctrl s = [] \<and> DataChan s = []
         \<and> s' = s\<lparr>manage := M_Final\<rparr>"
proof -
  have r: "Curr s < length (Dockers s)" using assms(2) by (simp add: inv_dockers_def)
  have same: False if "manage s' = manage s"
    using that assms(3,4) by (simp add: loop_exited_def final_done_def)
  show ?thesis
    using assms(1)
  proof (cases rule: step_cases)
    case Manage
    from Manage(2) r show ?thesis
    proof (cases rule: Manage_cases)
      case Loop_exit
      with Manage(1) show ?thesis by simp
    next
      case CtrlW
      then have False using assms(4) by (simp add: loop_exited_def final_done_def)
      then show ?thesis ..
    next
      case SaveFile
      then have False using assms(4) by (simp add: loop_exited_def final_done_def)
      then show ?thesis ..
    next
      case Loop_enter
      then have False using assms(4) by (simp add: loop_exited_def final_done_def)
      then show ?thesis ..
    next
      case Select_empty
      then have False using assms(4) by (simp add: loop_exited_def final_done_def)
      then show ?thesis ..
    next
      case (Select_put x rest)
      then have False using assms(4) by (simp add: loop_exited_def final_done_def)
      then show ?thesis ..
    next
      case (Select_full x rest)
      then have False using assms(4) by (simp add: loop_exited_def final_done_def)
      then show ?thesis ..
    next
      case Final
      then have False using assms(3) by (simp add: loop_exited_def final_done_def)
      then show ?thesis ..
    next
      case Wait_stay
      then have False using assms(3) by (simp add: loop_exited_def final_done_def)
      then show ?thesis ..
    next
      case Wait_text
      then have False using assms(3) by (simp add: loop_exited_def final_done_def)
      then show ?thesis ..
    next
      case File_back
      then have False using assms(3) by (simp add: loop_exited_def final_done_def)
      then show ?thesis ..
    next
      case Wait_file
      then have False using assms(3) by (simp add: loop_exited_def final_done_def)
      then show ?thesis ..
    next
      case Chan_back
      then have False using assms(3) by (simp add: loop_exited_def final_done_def)
      then show ?thesis ..
    next
      case Wait_chan
      then have False using assms(3) by (simp add: loop_exited_def final_done_def)
      then show ?thesis ..
    next
      case Report
      then have False using assms(3) by (simp add: loop_exited_def final_done_def)
      then show ?thesis ..
    qed
  next
    case (Output i)
    from output_step_frame(1) [OF Output(2)] have False by (rule same)
    then show ?thesis ..
  next
    case (CollectData x)
    then have "manage s' = manage s" by simp
    then have False by (rule same)
    then show ?thesis ..
  next
    case (CollectFile f)
    then have "manage s' = manage s" by simp
    then have False by (rule same)
    then show ?thesis ..
  next
    case (CtrlR b bs)
    then have "manage s' = manage s" by simp
    then have False by (rule same)
    then show ?thesis ..
  next
    case (SaveFile f rest)
    then have "manage s' = manage s" by simp
    then have False by (rule same)
    then show ?thesis ..
  next
    case (FileStart i f)
    then have "manage s' = manage s" by simp
    then have False by (rule same)
    then show ?thesis ..
  next
    case (FileEnd i f)
    then have "manage s' = manage s" by simp
    then have False by (rule same)
    then show ?thesis ..
  qed
qed

lemma reachable_exit:
  assumes "exec T as (Init T n k) = Some s" and "0 < DockerQueueCap T" and "loop_exited s"
  shows "\<exists>pre post s1. as = pre @ A_Manage # post \<and> exec T pre (Init T n k) = Some s1
           \<and> manage s1 = M_Loop \<and> ctrl s1 = [] \<and> DataChan s1 = []
           \<and> submitted pre = concat (triggered s) @ Dockers s ! Curr s
           \<and> DataChan s = submitted post"
  using assms(1,3)
proof (induction as arbitrary: s rule: rev_induct)
  case Nil
  then show ?case by (auto simp: Init_def loop_exited_def final_done_def)
next
  case (snoc a as)
  from snoc.prems(1) obtain s0 where e: "exec T as (Init T n k) = Some s0"
    and st: "step T a s0 = Some s"
    by (auto simp: exec_snoc split: option.splits)
  from reachable_run [OF e assms(2)] have d: "inv_dockers s0"
    by (simp add: inv_run_def inv_all_def)
  show ?case
  proof (cases "loop_exited s0")
    case True
    from snoc.IH [OF e True] obtain pre post s1 where
      p: "as = pre @ A_Manage # post" "exec T pre (Init T n k) = Some s1"
         "manage s1 = M_Loop" "ctrl s1 = []" "DataChan s1 = []"
         "submitted pre = concat (triggered s0) @ Dockers s0 ! Curr s0"
         "DataChan s0 = submitted post"
      by blast
    from step_after_exit(2) [OF st d True] p(7)
    have q: "DataChan s = submitted (post @ [a])" by (simp add: submitted_append)
    from step_items [OF st d] step_after_exit(2) [OF st d True] p(6)
    have "submitted pre = concat (triggered s) @ Dockers s ! Curr s" by simp
    with p q have "as @ [a] = pre @ A_Manage # (post @ [a])
        \<and> exec T pre (Init T n k) = Some s1
        \<and> manage s1 = M_Loop \<and> ctrl s1 = [] \<and> DataChan s1 = []
        \<and> submitted pre = concat (triggered s) @ Dockers s ! Curr s
        \<and> DataChan s = submitted (post @ [a])"
      by simp
    then show ?thesis by blast
  next
    case False
    from step_exit [OF st d False snoc.prems(2)]
    have x: "a = A_Manage" "manage s0 = M_Loop" "ctrl s0 = []" "DataChan s0 = []"
      "s = s0\<lparr>manage := M_Final\<rparr>"
      by simp_all
    from reachable_items [OF e assms(2)] x
    have "submitted as = concat (triggered s) @ Dockers s ! Curr s" by simp
    with e x have "as @ [a] = as @ A_Manage # []
        \<and> exec T as (Init T n k) = Some s0
        \<and> manage s0 = M_Loop \<and> ctrl s0 = [] \<and> DataChan s0 = []
        \<and> submitted as = concat (triggered s) @ Dockers s ! Curr s
        \<and> DataChan s = submitted []"
      by simp
    then show ?thesis by blast
  qed
qed

lemma reachable_ctrl:
  assumes "exec T as (Init T n k) = Some s" and "0 < DockerQueueCap T"
    and "manage s \<noteq> M_CtrlW" and "ctrl s = []"
  shows "A_CtrlR \<in> set as"
  using assms(1,3,4)
proof (induction as arbitrary: s rule: rev_induct)
  case Nil
  then show ?case by (auto simp: Init_def)
next
  case (snoc a as)
  from snoc.prems(1) obtain s0 where e: "exec T as (Init T n k) = Some s0"
    and st: "step T a s0 = Some s"
    by (auto simp: exec_snoc split: option.splits)
  from reachable_run [OF e assms(2)] have r: "Curr s0 < length (Dockers s0)"
    by (simp add: inv_run_def inv_all_def inv_dockers_def)
  have "a = A_CtrlR \<or> (manage s0 \<noteq> M_CtrlW \<and> ctrl s0 = [])"
    using st
  proof (cases rule: step_cases)
    case Manage
    from Manage(2) r show ?thesis
      by (cases rule: Manage_cases) (use snoc.prems(2,3) in simp_all)
  next
    case (Output i)
    with output_step_frame [OF Output(2)] snoc.prems(2,3) show ?thesis by simp
  qed (use snoc.prems(2,3) in simp_all)
  with snoc.IH [OF e] show ?case by auto
qed

text \<open>
  C6: in a run that has executed the final \<^verbatim>\<open>goOutput\<close>, the first loop was left by
  a step of \<^verbatim>\<open>Manage\<close> that found the control channel and the item queue empty, after
  a \<^verbatim>\<open>CtrlR\<close>; the items submitted before that step are exactly the items of the
  batches triggered, in order, each once; and at the end of \<^verbatim>\<open>Manage\<close> every batch
  triggered has been written once.
\<close>

theorem shutdown_drains_queue:
  assumes "exec T as (Init T n k) = Some s" and "0 < DockerQueueCap T" and "final_done s"
  shows "\<exists>pre post s1. as = pre @ A_Manage # post \<and> exec T pre (Init T n k) = Some s1
           \<and> manage s1 = M_Loop \<and> CtrlLen s1 = 0 \<and> DataChan s1 = [] \<and> A_CtrlR \<in> set pre
           \<and> concat (triggered s) = submitted pre
           \<and> (manage s = M_Done \<longrightarrow> mset (written s) = mset (triggered s))"
proof -
  from assms(3) have l: "loop_exited s" by (simp add: loop_exited_def)
  from reachable_exit [OF assms(1,2) l] obtain pre post s1 where
    p: "as = pre @ A_Manage # post" "exec T pre (Init T n k) = Some s1"
       "manage s1 = M_Loop" "ctrl s1 = []" "DataChan s1 = []"
       "submitted pre = concat (triggered s) @ Dockers s ! Curr s"
    by blast
  from reachable_ctrl [OF p(2) assms(2)] p(3,4) have c: "A_CtrlR \<in> set pre" by simp
  from reachable_run [OF assms(1,2)] assms(3) have "Dockers s ! Curr s = []"
    by (simp add: inv_run_def inv_batches_def)
  with p(6) have i: "concat (triggered s) = submitted pre" by simp
  have w: "manage s = M_Done \<longrightarrow> mset (written s) = mset (triggered s)"
    using written_when_done(1) [OF reachable_run [OF assms(1,2)]] by simp
  from p(1,2,3,4,5) c i w
  have "as = pre @ A_Manage # post \<and> exec T pre (Init T n k) = Some s1
           \<and> manage s1 = M_Loop \<and> CtrlLen s1 = 0 \<and> DataChan s1 = [] \<and> A_CtrlR \<in> set pre
           \<and> concat (triggered s) = submitted pre
           \<and> (manage s = M_Done \<longrightarrow> mset (written s) = mset (triggered s))"
    by (simp add: CtrlLen_def)
  then show ?thesis by blast
qed

theorem shutdown_drains_queue_witness:
  "exec task_cap3 (run_of [11, 12, 13, 14, 15, 16, 17] 3) (Init task_cap3 ''spider'' ''key'') =
       Some (final_state task_cap3 (run_of [11, 12, 13, 14, 15, 16, 17] 3))
   \<and> final_done (final_state task_cap3 (run_of [11, 12, 13, 14, 15, 16, 17] 3))
   \<and> (\<exists>pre post. run_of [11, 12, 13, 14, 15, 16, 17] 3 = pre @ A_Manage # post
         \<and> A_CtrlR \<in> set pre
         \<and> concat (triggered (final_state task_cap3 (run_of [11, 12, 13, 14, 15, 16, 17] 3)))
             = submitted pre)
   \<and> mset (written (final_state task_cap3 (run_of [11, 12, 13, 14, 15, 16, 17] 3)))
       = mset (triggered (final_state task_cap3 (run_of [11, 12, 13, 14, 15, 16, 17] 3)))"
proof -
  let ?r = "run_of [11, 12, 13, 14, 15, 16, 17] 3"
  have e: "exec task_cap3 ?r (Init task_cap3 ''spider'' ''key'') =
      Some (final_state task_cap3 ?r)"
    by code_simp
  have q: "0 < DockerQueueCap task_cap3" by (simp add: task_cap3_def)
  have f: "final_done (final_state task_cap3 ?r)" by code_simp
  have d: "manage (final_state task_cap3 ?r) = M_Done" by code_simp
  from shutdown_drains_queue [OF e q f] d e f show ?thesis by blast
qed

subsection \<open>The completion barrier\<close>

lemma step_stuck:
  assumes "step T a s = Some s'" and "inv_dockers s" and "stuck s"
  shows "stuck s'"
  using assms(1)
proof (cases rule: step_cases)
  case Manage
  have r: "Curr s < length (Dockers s)" using assms(2) by (simp add: inv_dockers_def)
  from Manage(2) r show ?thesis
    by (cases rule: Manage_cases) (use assms(3) in \<open>simp_all add: stuck_def\<close>)
next
  case (Output i)
  from Output(2) have "outputs s \<noteq> []" by (cases rule: output_step_cases) auto
  with assms(3) show ?thesis by (simp add: stuck_def)
qed (use assms(3) in \<open>simp_all add: stuck_def\<close>)

lemma exec_stuck:
  assumes "exec T as s = Some s'" and "inv_run T s" and "stuck s"
  shows "stuck s'"
proof -
  have "inv_run T s' \<and> stuck s'"
  proof (rule exec_invariant [where P = "\<lambda>s. inv_run T s \<and> stuck s"])
    show "exec T as s = Some s'" by fact
    show "inv_run T s \<and> stuck s" using assms(2,3) by simp
    show "inv_run T s' \<and> stuck s'" if "inv_run T s \<and> stuck s" and "step T a s = Some s'"
      for a s s'
    proof -
      from that(1) have "inv_dockers s" by (simp add: inv_run_def inv_all_def)
      with that step_run [OF that(2)] step_stuck [OF that(2)] show ?thesis by simp
    qed
  qed
  then show ?thesis ..
qed

text \<open>
  What the counters do ensure: at most one report is sent, and when it has been sent
  \<^verbatim>\<open>Manage\<close> has ended, no output goroutine is left and every batch triggered has
  been written.
\<close>

lemma report_after_text_outputs:
  assumes "exec T as (Init T n k) = Some s" and "0 < DockerQueueCap T"
  shows "length (ReportChan s) \<le> 1"
    and "ReportChan s \<noteq> [] \<Longrightarrow>
       manage s = M_Done \<and> outputs s = [] \<and> mset (written s) = mset (triggered s)"
proof -
  note r = reachable_run [OF assms]
  then have m: "inv_misc s" by (simp add: inv_run_def inv_all_def)
  have d: "manage s = M_Done" if "ReportChan s \<noteq> []"
    using m that by (auto simp: inv_misc_def)
  have one: "length (ReportChan s) = 1" if "manage s = M_Done"
  proof -
    from m that have "map DataNum (ReportChan s) = [sum_1 s]" by (simp add: inv_misc_def)
    then have "length (map DataNum (ReportChan s)) = 1" by simp
    then show ?thesis by simp
  qed
  show "length (ReportChan s) \<le> 1"
  proof (cases "ReportChan s = []")
    case True
    then show ?thesis by simp
  next
    case False
    from one [OF d [OF False]] show ?thesis by simp
  qed
  show "manage s = M_Done \<and> outputs s = [] \<and> mset (written s) = mset (triggered s)"
    if "ReportChan s \<noteq> []"
  proof -
    from d [OF that] m have "outputs s = []" by (simp add: inv_misc_def)
    with d [OF that] written_when_done(1) [OF r d [OF that]] show ?thesis by simp
  qed
qed

text \<open>
  C1 fails on the code.  The claim: for every task \<^verbatim>\<open>Manage\<close> emits exactly one
  report, after the started and finished counters have been found equal, because every
  started output is matched by one finished increment.  The run \<open>run_lost_increment\<close>:
  capacity 3, four items, shutdown; \<^verbatim>\<open>Manage\<close> triggers the outputs of
  \<open>[11, 12, 13]\<close> and of \<open>[14]\<close> and enters its second loop; both goroutines run
  \<^verbatim>\<open>Output\<close>, both read 0 from \<^verbatim>\<open>outCount[1]\<close>, both write 1, and both end.  Every
  batch triggered has been written, the queues are empty and no goroutine is left, yet
  the counter of started outputs is 2 and the counter of finished ones is 1.  However the
  run continues from there, \<^verbatim>\<open>Manage\<close> stays in its second loop and no report is
  sent.
\<close>

theorem lost_increment_blocks_report:
  "exec task_cap3 run_lost_increment (Init task_cap3 ''spider'' ''key'') =
       Some (final_state task_cap3 run_lost_increment)
   \<and> manage (final_state task_cap3 run_lost_increment) = M_Wait
   \<and> triggered (final_state task_cap3 run_lost_increment) = [[11, 12, 13], [14]]
   \<and> written (final_state task_cap3 run_lost_increment) = [[11, 12, 13], [14]]
   \<and> outputs (final_state task_cap3 run_lost_increment) = []
   \<and> DataChan (final_state task_cap3 run_lost_increment) = []
   \<and> FileChan (final_state task_cap3 run_lost_increment) = []
   \<and> file_outputs (final_state task_cap3 run_lost_increment) = []
   \<and> outCount_0 (final_state task_cap3 run_lost_increment) = 2
   \<and> outCount_1 (final_state task_cap3 run_lost_increment) = 1
   \<and> (\<forall>as s. exec task_cap3 (run_lost_increment @ as) (Init task_cap3 ''spider'' ''key'')
                = Some s \<longrightarrow> manage s = M_Wait \<and> ReportChan s = [])"
proof -
  let ?f = "final_state task_cap3 run_lost_increment"
  have e: "exec task_cap3 run_lost_increment (Init task_cap3 ''spider'' ''key'') = Some ?f"
    by code_simp
  have c: "manage ?f = M_Wait \<and> triggered ?f = [[11, 12, 13], [14]]
      \<and> written ?f = [[11, 12, 13], [14]] \<and> outputs ?f = [] \<and> DataChan ?f = []
      \<and> FileChan ?f = [] \<and> file_outputs ?f = [] \<and> outCount_0 ?f = 2 \<and> outCount_1 ?f = 1"
    by code_simp
  have q: "0 < DockerQueueCap task_cap3" by (simp add: task_cap3_def)
  have st: "stuck ?f" by code_simp
  have n: "manage s = M_Wait \<and> ReportChan s = []"
    if "exec task_cap3 (run_lost_increment @ as) (Init task_cap3 ''spider'' ''key'') = Some s"
    for as s
  proof -
    from that e have "exec task_cap3 as ?f = Some s" by (simp add: exec_append)
    from exec_stuck [OF this reachable_run [OF e q] st] show ?thesis by (simp add: stuck_def)
  qed
  from e c n show ?thesis by blast
qed

theorem lost_increment_blocks_report_witness:
  "exec task_cap3 (run_lost_increment @ [A_Manage, A_Manage, A_Manage])
       (Init task_cap3 ''spider'' ''key'') =
       Some (final_state task_cap3 (run_lost_increment @ [A_Manage, A_Manage, A_Manage]))
   \<and> manage (final_state task_cap3 (run_lost_increment @ [A_Manage, A_Manage, A_Manage]))
       = M_Wait
   \<and> ReportChan (final_state task_cap3 (run_lost_increment @ [A_Manage, A_Manage, A_Manage]))
       = []"
proof -
  let ?r = "run_lost_increment @ [A_Manage, A_Manage, A_Manage]"
  have e: "exec task_cap3 ?r (Init task_cap3 ''spider'' ''key'') =
      Some (final_state task_cap3 ?r)"
    by code_simp
  from lost_increment_blocks_report
  have "\<forall>as s. exec task_cap3 (run_lost_increment @ as) (Init task_cap3 ''spider'' ''key'')
                = Some s \<longrightarrow> manage s = M_Wait \<and> ReportChan s = []"
    by (elim conjE)
  with e have "manage (final_state task_cap3 ?r) = M_Wait
      \<and> ReportChan (final_state task_cap3 ?r) = []"
    by blast
  with e show ?thesis by simp
qed

text \<open>
  The three operands of the second loop's condition are read one after the other.  In
  the run \<open>run_file_in_flight\<close> a file is in the queue while \<^verbatim>\<open>Manage\<close> finds the
  counters of file outputs equal, the file worker (as modelled) receives the file, and
  \<^verbatim>\<open>Manage\<close> then finds the queue empty: the report is sent, with a file count of 0,
  while the worker holds the file.
\<close>

lemma report_with_file_in_flight:
  "exec task_cap3 run_file_in_flight (Init task_cap3 ''spider'' ''key'') =
       Some (final_state task_cap3 run_file_in_flight)
   \<and> manage (final_state task_cap3 run_file_in_flight) = M_Done
   \<and> map FileNum (ReportChan (final_state task_cap3 run_file_in_flight)) = [0]
   \<and> file_outputs (final_state task_cap3 run_file_in_flight) = [Received 21]
   \<and> FileChan (final_state task_cap3 run_file_in_flight) = []"
  by code_simp

end
